theory Spec2Isabelle
  imports Complex_Main "HOL-Library.Char_ord" "HOL-Library.List_Lexorder"
begin

section \<open>Python values and exceptions\<close>

text \<open>
  The module is Python 2. Strings are byte strings (\<open>string\<close>), Python's unbounded
  integers that count things are \<open>nat\<close>, and Python floats are idealised as \<open>real\<close>:
  the model computes with exact arithmetic where the program rounds. Every exception the
  modelled code can raise is a value of \<open>error\<close>; a call that raises returns \<open>Inl\<close>.
\<close>

datatype error = ZeroDivisionError | ValueError | NameError | IndexError

text \<open>Sequencing of a computation that may raise: the first exception wins.\<close>

definition and_then :: "error + 'a \<Rightarrow> ('a \<Rightarrow> error + 'b) \<Rightarrow> error + 'b" where
  "and_then r f = (case r of Inl e \<Rightarrow> Inl e | Inr v \<Rightarrow> f v)"

text \<open>True division \<open>a / b\<close> with a float operand: a zero divisor raises.\<close>

definition py_truediv :: "real \<Rightarrow> real \<Rightarrow> error + real" where
  "py_truediv a b = (if b = 0 then Inl ZeroDivisionError else Inr (a / b))"

section \<open>DefaultDict\<close>

text \<open>
  Modelled from the spec: \<open>DefaultDict\<close> comes from the module \<open>utils\<close>, which is not
  part of the sources at hand. The spec says that unseen observations use a configurable
  default count, applied uniformly, and that a conditional distribution is created on
  first use. The stored entries are an association list in the order in which the keys
  were first stored; the default is held beside it. A lookup of an unseen key yields the
  default, a store to an unseen key appends the entry.
\<close>

definition dd_get :: "('k \<times> 'v) list \<Rightarrow> 'v \<Rightarrow> 'k \<Rightarrow> 'v" where
  "dd_get entries dflt k = (case map_of entries k of None \<Rightarrow> dflt | Some v \<Rightarrow> v)"

fun dd_set :: "('k \<times> 'v) list \<Rightarrow> 'k \<Rightarrow> 'v \<Rightarrow> ('k \<times> 'v) list" where
  "dd_set [] k v = [(k, v)]"
| "dd_set ((k', v') # es) k v = (if k' = k then (k, v) # es else (k', v') # dd_set es k v)"

section \<open>CountingProbDist\<close>

text \<open>
  The fields set by \<open>__init__\<close>: \<open>dictionary\<close> (a \<open>DefaultDict\<close>, here its entries and
  its default), \<open>needs_recompute\<close>, \<open>table\<close> and \<open>n_obs\<close>. \<open>n_obs\<close> is the integer 0
  after construction, is incremented by \<open>add\<close> and becomes a float in \<open>_recompute\<close>;
  it is a \<open>real\<close> here.
\<close>

record 'a CountingProbDist =
  dictionary :: "('a \<times> nat) list"
  default_count :: nat
  needs_recompute :: bool
  table :: "(nat \<times> 'a) list"
  n_obs :: real

definition CountingProbDist_add ::
  "('a, 'm) CountingProbDist_scheme \<Rightarrow> 'a \<Rightarrow> ('a, 'm) CountingProbDist_scheme" where
  "CountingProbDist_add self ob =
     self\<lparr>dictionary := dd_set (dictionary self) ob
                            (dd_get (dictionary self) (default_count self) ob + 1),
          n_obs := n_obs self + 1,
          needs_recompute := True\<rparr>"

definition CountingProbDist_init :: "'a list \<Rightarrow> nat \<Rightarrow> 'a CountingProbDist" where
  "CountingProbDist_init observations dflt =
     foldl CountingProbDist_add
       \<lparr>dictionary = [], default_count = dflt, needs_recompute = False,
        table = [], n_obs = 0\<rparr>
       observations"

text \<open>The loop of \<open>_recompute\<close> over the stored entries, with its two locals.\<close>

fun recompute_loop :: "('a \<times> nat) list \<Rightarrow> nat \<Rightarrow> (nat \<times> 'a) list \<Rightarrow> nat \<times> (nat \<times> 'a) list" where
  "recompute_loop [] n t = (n, t)"
| "recompute_loop ((ob, count) # es) n t = recompute_loop es (n + count) (t @ [(n + count, ob)])"

definition CountingProbDist_recompute ::
  "('a, 'm) CountingProbDist_scheme \<Rightarrow> ('a, 'm) CountingProbDist_scheme" where
  "CountingProbDist_recompute self =
     (case recompute_loop (dictionary self) 0 [] of
        (n, t) \<Rightarrow> self\<lparr>n_obs := real n, table := t, needs_recompute := False\<rparr>)"

text \<open>The guard \<open>if self.needs_recompute: self._recompute()\<close> that opens every reader.\<close>

definition recompute_if_needed ::
  "('a, 'm) CountingProbDist_scheme \<Rightarrow> ('a, 'm) CountingProbDist_scheme" where
  "recompute_if_needed self =
     (if needs_recompute self then CountingProbDist_recompute self else self)"

text \<open>
  \<open>__getitem__\<close> and \<open>__len__\<close> return their value together with the distribution as
  the call leaves it.
\<close>

definition CountingProbDist_getitem ::
  "('a, 'm) CountingProbDist_scheme \<Rightarrow> 'a \<Rightarrow> (error + real) \<times> ('a, 'm) CountingProbDist_scheme" where
  "CountingProbDist_getitem self item =
     (let self' = recompute_if_needed self
      in (py_truediv (real (dd_get (dictionary self') (default_count self') item)) (n_obs self'),
          self'))"

definition CountingProbDist_len ::
  "('a, 'm) CountingProbDist_scheme \<Rightarrow> real \<times> ('a, 'm) CountingProbDist_scheme" where
  "CountingProbDist_len self = (let self' = recompute_if_needed self in (n_obs self', self'))"

text \<open>
  The sum that the testable property of the spec speaks of: the probabilities, looked up
  in the unsmoothed distribution built from \<open>xs\<close>, of the distinct observations of \<open>xs\<close>.
\<close>

definition observed_mass :: "'a list \<Rightarrow> real" where
  "observed_mass xs =
     (\<Sum>ob\<in>set xs. projr (fst (CountingProbDist_getitem (CountingProbDist_init xs 0) ob)))"

section \<open>Cipher codec\<close>

definition alphabet :: string where
  "alphabet = ''abcdefghijklmnopqrstuvwxyz''"

text \<open>
  \<open>str.upper\<close> and \<open>str.lower\<close> of a Python 2 byte string: the 26 ASCII letters change
  case, every other byte stays.
\<close>

definition upper_char :: "char \<Rightarrow> char" where
  "upper_char c =
     (if (97::nat) \<le> of_char c \<and> of_char c \<le> (122::nat) then char_of (of_char c - (32::nat)) else c)"

definition lower_char :: "char \<Rightarrow> char" where
  "lower_char c =
     (if (65::nat) \<le> of_char c \<and> of_char c \<le> (90::nat) then char_of (of_char c + (32::nat)) else c)"

definition upper :: "string \<Rightarrow> string" where
  "upper s = map upper_char s"

definition lower :: "string \<Rightarrow> string" where
  "lower s = map lower_char s"

text \<open>The slices \<open>s[n:]\<close> and \<open>s[:n]\<close>; a negative index counts from the end.\<close>

definition slice_from :: "'a list \<Rightarrow> int \<Rightarrow> 'a list" where
  "slice_from s n = (if n < 0 then drop (nat (int (length s) + n)) s else drop (nat n) s)"

definition slice_upto :: "'a list \<Rightarrow> int \<Rightarrow> 'a list" where
  "slice_upto s n = (if n < 0 then take (nat (int (length s) + n)) s else take (nat n) s)"

text \<open>
  \<open>string.maketrans\<close> raises \<open>ValueError\<close> when its arguments differ in length;
  otherwise the table sends \<open>frm[i]\<close> to \<open>to[i]\<close> (the last position of a repeated
  character wins) and every other character to itself. \<open>str.translate\<close> maps the table
  over the string.
\<close>

definition maketrans :: "string \<Rightarrow> string \<Rightarrow> error + (char \<Rightarrow> char)" where
  "maketrans frm to =
     (if length frm \<noteq> length to then Inl ValueError
      else Inr (\<lambda>c. case map_of (rev (zip frm to)) c of None \<Rightarrow> c | Some c' \<Rightarrow> c'))"

definition translate :: "string \<Rightarrow> (char \<Rightarrow> char) \<Rightarrow> string" where
  "translate s tbl = map tbl s"

definition encode :: "string \<Rightarrow> string \<Rightarrow> error + string" where
  "encode plaintext code =
     and_then (maketrans (alphabet @ upper alphabet) (code @ upper code))
       (\<lambda>tbl. Inr (translate plaintext tbl))"

definition shift_encode :: "string \<Rightarrow> int \<Rightarrow> error + string" where
  "shift_encode plaintext n = encode plaintext (slice_from alphabet n @ slice_upto alphabet n)"

definition rot13 :: "string \<Rightarrow> error + string" where
  "rot13 plaintext = shift_encode plaintext 13"

text \<open>\<open>bigrams\<close>: the slices \<open>text[i:i+2]\<close> for \<open>i\<close> in \<open>range(len(text) - 1)\<close>.\<close>

definition bigrams :: "'a list \<Rightarrow> 'a list list" where
  "bigrams text = map (\<lambda>i. take 2 (drop i text)) [0 ..< length text - 1]"

text \<open>
  The table that \<open>rot13\<close> hands to \<open>translate\<close>, written out: \<open>rot13_eq\<close> below shows
  that \<open>rot13\<close> maps this function over its argument.
\<close>

definition rot13_char :: "char \<Rightarrow> char" where
  "rot13_char c =
     (case map_of (rev (zip ''abcdefghijklmnopqrstuvwxyzABCDEFGHIJKLMNOPQRSTUVWXYZ''
                            ''nopqrstuvwxyzabcdefghijklmNOPQRSTUVWXYZABCDEFGHIJKLM'')) c
      of None \<Rightarrow> c | Some c' \<Rightarrow> c')"

section \<open>NgramTextModel\<close>

text \<open>A \<open>for\<close> loop whose body may raise: the state is threaded, the first exception ends it.\<close>

fun for_each :: "'i list \<Rightarrow> ('s \<Rightarrow> 'i \<Rightarrow> error + 's) \<Rightarrow> 's \<Rightarrow> error + 's" where
  "for_each [] body s = Inr s"
| "for_each (i # is) body s = and_then (body s i) (for_each is body)"

text \<open>
  The keys of an n-gram model's own dictionary are tuples of tokens, but its inherited
  \<open>__getitem__\<close> is also called with a string (by \<open>PermutationDecoder.score\<close>); a
  string never equals a tuple. Tokens are strings, tuples are lists.
\<close>

datatype key = Str string | Tup "string list"

text \<open>
  The class extends \<open>CountingProbDist\<close> by \<open>n\<close>, here \<open>model_n\<close>, and
  \<open>cond_prob\<close>, a \<open>DefaultDict\<close> whose default is an empty
  \<open>CountingProbDist()\<close>, copied for each new key.
\<close>

record NgramTextModel = "key CountingProbDist" +
  model_n :: nat
  cond_prob :: "(string list \<times> string CountingProbDist) list"

definition NgramTextModel_add :: "NgramTextModel \<Rightarrow> string list \<Rightarrow> error + NgramTextModel" where
  "NgramTextModel_add self ngram =
     (let self' = CountingProbDist_add self (Tup ngram)
      in if ngram = [] then Inl IndexError
         else Inr (self'\<lparr>cond_prob :=
                     dd_set (cond_prob self') (butlast ngram)
                       (CountingProbDist_add
                          (dd_get (cond_prob self') (CountingProbDist_init [] 0) (butlast ngram))
                          (last ngram))\<rparr>))"

definition NgramTextModel_add_sequence :: "NgramTextModel \<Rightarrow> string list \<Rightarrow> error + NgramTextModel" where
  "NgramTextModel_add_sequence self words =
     (let n = model_n self;
          words' = replicate (n - 1) '''' @ words
      in for_each [0 ..< length words' - n]
           (\<lambda>s i. NgramTextModel_add s (take n (drop i words'))) self)"

definition NgramTextModel_init :: "nat \<Rightarrow> string list \<Rightarrow> error + NgramTextModel" where
  "NgramTextModel_init n observation_sequence =
     NgramTextModel_add_sequence
       (CountingProbDist.extend (CountingProbDist_init [] 0)
          \<lparr>model_n = n, cond_prob = []\<rparr>)
       observation_sequence"

text \<open>
  What a test reads after construction: the count of \<open>tok\<close> in the dictionary of the
  conditional distribution keyed by \<open>ctx\<close>, and the count of an n-gram in the model's own
  dictionary.
\<close>

definition cond_count :: "error + NgramTextModel \<Rightarrow> string list \<Rightarrow> string \<Rightarrow> error + nat" where
  "cond_count r ctx tok =
     and_then r (\<lambda>m. Inr (dd_get (dictionary (dd_get (cond_prob m) (CountingProbDist_init [] 0) ctx)) 0 tok))"

definition ngram_count :: "error + NgramTextModel \<Rightarrow> string list \<Rightarrow> error + nat" where
  "ngram_count r ngram = and_then r (\<lambda>m. Inr (dd_get (dictionary m) (default_count m) (Tup ngram)))"

section \<open>Viterbi segmentation\<close>

text \<open>The slice \<open>text[j:i]\<close> for \<open>0 \<le> j\<close> and \<open>0 \<le> i\<close>.\<close>

definition slice :: "'a list \<Rightarrow> nat \<Rightarrow> nat \<Rightarrow> 'a list" where
  "slice text j i = take (i - j) (drop j text)"

text \<open>
  The body of the inner loop, for end position \<open>i\<close> and start position \<open>j\<close>. The state
  is the model \<open>P\<close> (a lookup may rebuild its totals) and the vectors \<open>best\<close> and
  \<open>words\<close>. The source evaluates \<open>P[w]\<close> in the test and again in the assignment.
  All indices are within the vectors: \<open>i \<le> n\<close>, and \<open>i - len(w) = j\<close>.
\<close>

definition viterbi_step ::
  "string \<Rightarrow> nat \<Rightarrow> string CountingProbDist \<times> real list \<times> string list \<Rightarrow> nat
     \<Rightarrow> error + string CountingProbDist \<times> real list \<times> string list" where
  "viterbi_step text i s j =
     (case s of (P, best, words) \<Rightarrow>
        let w = slice text j i in
        case CountingProbDist_getitem P w of (r1, P1) \<Rightarrow>
          and_then r1 (\<lambda>p1.
            if p1 * best ! (i - length w) \<ge> best ! i then
              (case CountingProbDist_getitem P1 w of (r2, P2) \<Rightarrow>
                 and_then r2 (\<lambda>p2.
                   Inr (P2, best[i := p2 * best ! (i - length w)], words[i := w])))
            else Inr (P1, best, words)))"

text \<open>The two nested \<open>for\<close> loops that fill \<open>best\<close> and \<open>words\<close>.\<close>

definition viterbi_fill ::
  "string \<Rightarrow> string CountingProbDist \<Rightarrow> error + string CountingProbDist \<times> real list \<times> string list" where
  "viterbi_fill text P =
     (let n = length text;
          words = [''''] @ map (\<lambda>c. [c]) text;
          best = [1] @ replicate n 0
      in for_each [0 ..< n + 1]
           (\<lambda>s i. for_each [0 ..< i] (viterbi_step text i) s)
           (P, best, words))"

text \<open>
  The \<open>while\<close> loop that recovers the sequence; \<open>sequence[0:0] = [w]\<close> puts \<open>w\<close> in
  front. Nothing in the loop itself bounds its running time, so not returning is the
  value \<open>None\<close>.
\<close>

partial_function (option) viterbi_recover :: "string list \<Rightarrow> int \<Rightarrow> string list \<Rightarrow> string list option" where
  "viterbi_recover words i sequence =
     (if i > 0
      then viterbi_recover words (i - int (length (words ! nat i))) (words ! nat i # sequence)
      else Some sequence)"

definition viterbi_segment ::
  "string \<Rightarrow> string CountingProbDist \<Rightarrow> (error + string list \<times> real) option" where
  "viterbi_segment text P =
     (case viterbi_fill text P of
        Inl e \<Rightarrow> Some (Inl e)
      | Inr (P', best, words) \<Rightarrow>
          map_option (\<lambda>sequence. Inr (sequence, last best))
            (viterbi_recover words (int (length words) - 1) []))"

text \<open>
  For stating what the loops record: the vectors \<open>best\<close> and \<open>words\<close> as the loops
  leave them, and the candidate probability \<open>P[text[j:i]] * best[j]\<close> that the step for
  \<open>i\<close> and \<open>j\<close> compares.
\<close>

definition viterbi_tables :: "string \<Rightarrow> string CountingProbDist \<Rightarrow> error + real list \<times> string list" where
  "viterbi_tables text P = and_then (viterbi_fill text P) (\<lambda>s. Inr (snd s))"

definition candidate :: "string \<Rightarrow> string CountingProbDist \<Rightarrow> real list \<Rightarrow> nat \<Rightarrow> nat \<Rightarrow> real" where
  "candidate text P best j i = projr (fst (CountingProbDist_getitem P (slice text j i))) * best ! j"

text \<open>
  For the proofs: the step on the two vectors alone, and what is recorded at end
  position \<open>i\<close> once the start positions below \<open>m\<close> have been tried, namely a candidate
  \<open>j\<close> that no tried candidate exceeds and that every later tried candidate stays strictly
  below.
\<close>

definition vstep :: "string \<Rightarrow> string CountingProbDist \<Rightarrow> nat \<Rightarrow> real list \<times> string list \<Rightarrow> nat
    \<Rightarrow> real list \<times> string list" where
  "vstep text P i bw j =
     (let c = candidate text P (fst bw) j i
      in if c \<ge> fst bw ! i then ((fst bw)[i := c], (snd bw)[i := slice text j i]) else bw)"

definition recorded_upto :: "string \<Rightarrow> string CountingProbDist \<Rightarrow> real list \<Rightarrow> string list \<Rightarrow> nat \<Rightarrow> nat \<Rightarrow> bool" where
  "recorded_upto text P best words i m =
     (\<exists>j<m. words ! i = slice text j i \<and> best ! i = candidate text P best j i \<and>
        (\<forall>k<m. candidate text P best k i \<le> best ! i) \<and>
        (\<forall>k. j < k \<and> k < m \<longrightarrow> candidate text P best k i < best ! i))"

section \<open>words, canonicalize\<close>

text \<open>
  \<open>words\<close> lowers the text and returns \<open>re.findall\<close> of \<open>[a-z0-9]+\<close>: the maximal
  runs of lowercase letters and digits, from left to right. \<open>words_scan\<close> carries the
  run being read.
\<close>

definition is_word_char :: "char \<Rightarrow> bool" where
  "is_word_char c =
     (((97::nat) \<le> of_char c \<and> of_char c \<le> (122::nat)) \<or>
      ((48::nat) \<le> of_char c \<and> of_char c \<le> (57::nat)))"

fun words_scan :: "string \<Rightarrow> string \<Rightarrow> string list" where
  "words_scan [] cur = (if cur = [] then [] else [cur])"
| "words_scan (c # cs) cur =
     (if is_word_char c then words_scan cs (cur @ [c])
      else if cur = [] then words_scan cs []
      else cur # words_scan cs [])"

definition words :: "string \<Rightarrow> string list" where
  "words text = words_scan (lower text) []"

text \<open>\<open>sep.join(xs)\<close>.\<close>

fun join :: "string \<Rightarrow> string list \<Rightarrow> string" where
  "join sep [] = []"
| "join sep [x] = x"
| "join sep (x # y # ys) = x @ sep @ join sep (y # ys)"

definition canonicalize :: "string \<Rightarrow> string" where
  "canonicalize text = join '' '' (words text)"

section \<open>ShiftDecoder\<close>

text \<open>
  Modelled from the spec: \<open>argmax\<close> comes from the module \<open>utils\<close>, which is not part
  of the sources at hand. The spec says that the candidate with maximum score is returned
  and that the first candidate achieving the maximum wins. The scoring function may raise
  and may change the state it is given; the candidates are scored in order. The spec does
  not speak of an empty sequence; the model raises \<open>IndexError\<close> there.
\<close>

fun argmax_loop ::
  "'a list \<Rightarrow> ('s \<Rightarrow> 'a \<Rightarrow> (error + real) \<times> 's) \<Rightarrow> 's \<Rightarrow> 'a \<Rightarrow> real \<Rightarrow> error + 'a \<times> 's" where
  "argmax_loop [] fn s best best_score = Inr (best, s)"
| "argmax_loop (x # xs) fn s best best_score =
     (case fn s x of
        (Inl e, s') \<Rightarrow> Inl e
      | (Inr x_score, s') \<Rightarrow>
          if x_score > best_score then argmax_loop xs fn s' x x_score
          else argmax_loop xs fn s' best best_score)"

definition argmax :: "'a list \<Rightarrow> ('s \<Rightarrow> 'a \<Rightarrow> (error + real) \<times> 's) \<Rightarrow> 's \<Rightarrow> error + 'a \<times> 's" where
  "argmax seq fn s =
     (case seq of
        [] \<Rightarrow> Inl IndexError
      | x # xs \<Rightarrow>
          (case fn s x of
             (Inl e, s') \<Rightarrow> Inl e
           | (Inr x_score, s') \<Rightarrow> argmax_loop xs fn s' x x_score))"

text \<open>
  The decoder holds one field, \<open>P2\<close>, the smoothed distribution of the bigrams of the
  canonical training text; the model passes that distribution itself.
\<close>

definition ShiftDecoder_init :: "string \<Rightarrow> string CountingProbDist" where
  "ShiftDecoder_init training_text = CountingProbDist_init (bigrams (canonicalize training_text)) 1"

text \<open>The loop of \<open>score\<close> over the bigrams, with the running product \<open>s\<close>.\<close>

fun score_loop :: "string list \<Rightarrow> string CountingProbDist \<Rightarrow> real \<Rightarrow> (error + real) \<times> string CountingProbDist" where
  "score_loop [] P2 s = (Inr s, P2)"
| "score_loop (bi # bis) P2 s =
     (case CountingProbDist_getitem P2 bi of
        (Inl e, P2') \<Rightarrow> (Inl e, P2')
      | (Inr p, P2') \<Rightarrow> score_loop bis P2' (s * p))"

definition ShiftDecoder_score :: "string CountingProbDist \<Rightarrow> string \<Rightarrow> (error + real) \<times> string CountingProbDist" where
  "ShiftDecoder_score P2 plaintext = score_loop (bigrams plaintext) P2 1"

text \<open>A list comprehension whose element expression may raise.\<close>

fun collect :: "('i \<Rightarrow> error + 'a) \<Rightarrow> 'i list \<Rightarrow> error + 'a list" where
  "collect f [] = Inr []"
| "collect f (i # is) = and_then (f i) (\<lambda>x. and_then (collect f is) (\<lambda>xs. Inr (x # xs)))"

definition all_shifts :: "string \<Rightarrow> error + string list" where
  "all_shifts text = collect (\<lambda>n. shift_encode text (int n)) [0 ..< length alphabet]"

definition ShiftDecoder_decode :: "string CountingProbDist \<Rightarrow> string \<Rightarrow> error + string \<times> string CountingProbDist" where
  "ShiftDecoder_decode P2 ciphertext =
     and_then (all_shifts ciphertext) (\<lambda>shifts. argmax shifts ShiftDecoder_score P2)"

text \<open>The answer of \<open>decode\<close> alone, and the score of a candidate as a number.\<close>

definition decode_answer :: "string CountingProbDist \<Rightarrow> string \<Rightarrow> error + string" where
  "decode_answer P2 ciphertext = and_then (ShiftDecoder_decode P2 ciphertext) (\<lambda>r. Inr (fst r))"

definition score_of :: "string CountingProbDist \<Rightarrow> string \<Rightarrow> real" where
  "score_of P2 plaintext = projr (fst (ShiftDecoder_score P2 plaintext))"

section \<open>PermutationDecoder\<close>

text \<open>
  \<open>math.log\<close> raises \<open>ValueError\<close> (math domain error) at zero and below. \<open>math.exp\<close>
  is the real exponential; overflow and underflow of floats are not modelled.
\<close>

definition py_log :: "real \<Rightarrow> error + real" where
  "py_log x = (if x \<le> 0 then Inl ValueError else Inr (ln x))"

text \<open>
  One of the three comprehensions of \<open>score\<close>, summed: \<open>sum([log(P[x]) for x in xs])\<close>.
  The first lookup or logarithm that raises ends it.
\<close>

fun log_sum :: "('a, 'm) CountingProbDist_scheme \<Rightarrow> 'a list \<Rightarrow> error + real" where
  "log_sum P [] = Inr 0"
| "log_sum P (x # xs) =
     (case CountingProbDist_getitem P x of
        (r, P') \<Rightarrow> and_then r (\<lambda>p. and_then (py_log p) (\<lambda>l. and_then (log_sum P' xs) (\<lambda>rest. Inr (l + rest)))))"

text \<open>
  The fields set by \<open>__init__\<close>: the word model, the letter model (its observations are
  the characters of the training text, strings of length one) and the letter-pair model.
\<close>

record PermutationDecoder =
  pd_Pwords :: "string CountingProbDist"
  pd_P1 :: "string CountingProbDist"
  pd_P2 :: NgramTextModel

text \<open>
  \<open>score\<close> calls a module-level function \<open>decode(ciphertext, code)\<close> that the module
  does not define and the sources at hand do not hold; it is the parameter \<open>dec\<close> here.
  A search state, the \<open>code\<close>, is a dictionary from letters to letters: the list of its
  items. \<open>score\<close> looks the two-character strings of \<open>bigrams(text)\<close> up in \<open>P2\<close>.
\<close>

definition PermutationDecoder_score ::
  "(string \<Rightarrow> (char \<times> char) list \<Rightarrow> string) \<Rightarrow> PermutationDecoder \<Rightarrow> string \<Rightarrow> (char \<times> char) list
     \<Rightarrow> error + real" where
  "PermutationDecoder_score dec self ciphertext code =
     (let text = dec ciphertext code
      in and_then (log_sum (pd_Pwords self) (words text)) (\<lambda>a.
         and_then (log_sum (pd_P1 self) (map (\<lambda>c. [c]) text)) (\<lambda>b.
         and_then (log_sum (pd_P2 self) (map Str (bigrams text))) (\<lambda>c.
           Inr (exp (a + b + c))))))"

text \<open>
  Modelled from the spec: \<open>decode(ciphertext, code)\<close>, called by \<open>score\<close> and defined
  nowhere in the sources at hand. The spec says that the ciphertext is decoded under the
  possibly partial assignment, unassigned cipher letters being left as placeholders; here
  a character that the assignment maps is replaced and every other character stays.
\<close>

definition decode :: "string \<Rightarrow> (char \<times> char) list \<Rightarrow> string" where
  "decode ciphertext code = map (\<lambda>c. case map_of code c of None \<Rightarrow> c | Some p \<Rightarrow> p) ciphertext"

text \<open>A freshly constructed \<open>NgramTextModel(n)\<close>, before any sequence is added.\<close>

definition NgramTextModel_fresh :: "nat \<Rightarrow> NgramTextModel" where
  "NgramTextModel_fresh n =
     CountingProbDist.extend (CountingProbDist_init [] 0) \<lparr>model_n = n, cond_prob = []\<rparr>"

section \<open>PermutationDecoderProblem\<close>

text \<open>\<open>max\<close> of a list of pairs (probability, letter): \<open>ValueError\<close> on the empty list.\<close>

definition pair_less :: "real \<times> string \<Rightarrow> real \<times> string \<Rightarrow> bool" where
  "pair_less a b = (fst a < fst b \<or> (fst a = fst b \<and> snd a < snd b))"

definition py_max :: "(real \<times> string) list \<Rightarrow> error + real \<times> string" where
  "py_max xs =
     (case xs of
        [] \<Rightarrow> Inl ValueError
      | x # rest \<Rightarrow> Inr (foldl (\<lambda>best y. if pair_less best y then y else best) x rest))"

text \<open>The comprehension \<open>[(P1[c], c) for c in cs]\<close>.\<close>

fun lookup_pairs :: "string CountingProbDist \<Rightarrow> string list \<Rightarrow> error + (real \<times> string) list" where
  "lookup_pairs P [] = Inr []"
| "lookup_pairs P (c # cs) =
     (case CountingProbDist_getitem P c of
        (r, P') \<Rightarrow> and_then r (\<lambda>p. and_then (lookup_pairs P' cs) (\<lambda>rest. Inr ((p, c) # rest))))"

text \<open>
  \<open>successors\<close>: the best unassigned letter is found; then the list
  \<open>[extend(state, plainchar, cipherchar)]\<close> is to be built, but \<open>cipherchar\<close> is a name
  bound nowhere in the module, so evaluating the argument raises \<open>NameError\<close>. The method
  has no \<open>return\<close> statement: had it reached its end, it would have returned \<open>None\<close>,
  which is \<open>Inr None\<close> here; a list of successor states would be \<open>Inr (Some states)\<close>.
\<close>

definition successors ::
  "PermutationDecoder \<Rightarrow> (char \<times> char) list \<Rightarrow> error + (char \<times> char) list list option" where
  "successors decoder state =
     and_then (lookup_pairs (pd_P1 decoder) (map (\<lambda>c. [c]) (filter (\<lambda>c. map_of state c = None) alphabet)))
       (\<lambda>pairs. and_then (py_max pairs) (\<lambda>best. Inl NameError))"

definition goal_test :: "(char \<times> char) list \<Rightarrow> bool" where
  "goal_test state = (length state \<ge> 26)"

section \<open>Sampling and text generation\<close>

text \<open>
  The random source is a sequence \<open>gen\<close> of raw draws and the position \<open>pos\<close> of the
  next one. \<open>random.randrange(x)\<close> raises \<open>ValueError\<close> unless \<open>x\<close> is a positive
  whole number, and otherwise consumes one draw and returns a number below \<open>x\<close>. Every
  sequence of results that \<open>randrange\<close> can produce is produced by some \<open>gen\<close>.
\<close>

definition randrange :: "(nat \<Rightarrow> nat) \<Rightarrow> nat \<Rightarrow> real \<Rightarrow> error + nat \<times> nat" where
  "randrange gen pos x =
     (if x \<noteq> of_int \<lfloor>x\<rfloor> \<or> \<lfloor>x\<rfloor> \<le> 0 then Inl ValueError
      else Inr (gen pos mod nat \<lfloor>x\<rfloor>, pos + 1))"

text \<open>
  \<open>bisect.bisect_left(table, (k,))\<close> on a table sorted by cumulative count, as
  \<open>_recompute\<close> builds it: the index of the first entry whose cumulative count is not
  below \<open>k\<close> (the one-element tuple \<open>(k,)\<close> is below every pair that starts with \<open>k\<close>).
\<close>

definition bisect_left :: "(nat \<times> 'a) list \<Rightarrow> nat \<Rightarrow> nat" where
  "bisect_left tbl k = length (takeWhile (\<lambda>entry. fst entry < k) tbl)"

text \<open>
  \<open>sample\<close> returns \<open>None\<close> on an empty distribution; \<open>table[i]\<close> raises
  \<open>IndexError\<close> past the end. The result carries the distribution as the call leaves it
  and the position of the next draw.
\<close>

definition CountingProbDist_sample ::
  "(nat \<Rightarrow> nat) \<Rightarrow> nat \<Rightarrow> ('a, 'm) CountingProbDist_scheme
     \<Rightarrow> error + 'a option \<times> ('a, 'm) CountingProbDist_scheme \<times> nat" where
  "CountingProbDist_sample gen pos self =
     (let self' = recompute_if_needed self
      in if n_obs self' = 0 then Inr (None, self', pos)
         else and_then (randrange gen pos (n_obs self'))
                (\<lambda>(r, pos').
                   let i = bisect_left (table self') (1 + r)
                   in if i < length (table self') then Inr (Some (snd (table self' ! i)), self', pos')
                      else Inl IndexError))"

text \<open>
  The loop of \<open>samples\<close>. \<open>if wn\<close> holds for a token that is neither \<open>None\<close> nor the
  empty string. The conditional distribution fetched from \<open>cond_prob\<close> is the object that
  \<open>sample\<close> changes, so it is stored back. Nothing in the loop bounds its running time:
  not returning is the value \<open>None\<close>.
\<close>

partial_function (option) samples_loop ::
  "(nat \<Rightarrow> nat) \<Rightarrow> nat \<Rightarrow> nat \<Rightarrow> (string list \<times> string CountingProbDist) list \<Rightarrow> nat
     \<Rightarrow> string list \<Rightarrow> string list \<Rightarrow> (error + string) option" where
  "samples_loop gen n nwords cp pos nminus1gram output =
     (if length output < nwords then
        (case CountingProbDist_sample gen pos (dd_get cp (CountingProbDist_init [] 0) nminus1gram) of
           Inl e \<Rightarrow> Some (Inl e)
         | Inr (wn, d, pos') \<Rightarrow>
             (case wn of
                Some w \<Rightarrow>
                  if w \<noteq> [] then
                    samples_loop gen n nwords (dd_set cp nminus1gram d) pos'
                      (drop 1 nminus1gram @ [w]) (output @ [w])
                  else
                    samples_loop gen n nwords (dd_set cp nminus1gram d) pos'
                      (replicate (n - 1) []) output
              | None \<Rightarrow>
                  samples_loop gen n nwords (dd_set cp nminus1gram d) pos'
                    (replicate (n - 1) []) output))
      else Some (Inr (join '' '' output)))"

definition NgramTextModel_samples ::
  "(nat \<Rightarrow> nat) \<Rightarrow> nat \<Rightarrow> NgramTextModel \<Rightarrow> nat \<Rightarrow> (error + string) option" where
  "NgramTextModel_samples gen pos self nwords =
     samples_loop gen (model_n self) nwords (cond_prob self) pos (replicate (model_n self - 1) []) []"

text \<open>A random source whose every draw is 0.\<close>

definition zero_draws :: "nat \<Rightarrow> nat" where
  "zero_draws k = 0"

text \<open>
  For stating which models generate text: a distribution is \<open>consistent\<close> when it is
  stale, as \<open>add\<close> leaves it, or when its total and table are what \<open>_recompute\<close> builds
  from its counts; a freshly constructed distribution is. \<open>total_count\<close> is the sum of
  the counts held.
\<close>

definition consistent :: "('a, 'm) CountingProbDist_scheme \<Rightarrow> bool" where
  "consistent d =
     (needs_recompute d \<or>
      (n_obs d = real (fst (recompute_loop (dictionary d) 0 [])) \<and>
       table d = snd (recompute_loop (dictionary d) 0 [])))"

definition total_count :: "('a, 'm) CountingProbDist_scheme \<Rightarrow> nat" where
  "total_count d = sum_list (map snd (dictionary d))"


text \<open>
  What the spec says \<open>sample\<close> returns, read off the counts without the table: for a
  number \<open>r\<close> below the total, the observation of the first entry whose cumulative count
  exceeds \<open>r\<close>.
\<close>

fun pick :: "('a \<times> nat) list \<Rightarrow> nat \<Rightarrow> 'a option" where
  "pick [] r = None"
| "pick ((ob, count) # es) r = (if r < count then Some ob else pick es (r - count))"

text \<open>
  What the spec says \<open>samples\<close> generates, token by token, from the draw at position
  \<open>pos\<close> on and with the rolling context \<open>ctx\<close>: the next token is picked from the
  conditional distribution of \<open>ctx\<close> by the next draw; when that distribution is empty
  (no draw is used) or the pick is the empty string (one draw is used), the context is
  reset to all-sentinel and the token is picked from the all-sentinel distribution by the
  draw after. \<open>drawn\<close> says that \<open>toks\<close> is the sequence generated in this way.
\<close>

fun drawn ::
  "(nat \<Rightarrow> nat) \<Rightarrow> (string list \<times> string CountingProbDist) list \<Rightarrow> nat \<Rightarrow> nat \<Rightarrow> string list
     \<Rightarrow> string list \<Rightarrow> bool" where
  "drawn gen cp n pos ctx [] = True"
| "drawn gen cp n pos ctx (t # ts) =
     (let d = dd_get cp (CountingProbDist_init [] 0) ctx;
          s = dd_get cp (CountingProbDist_init [] 0) (replicate (n - 1) [])
      in if 0 < total_count d \<and> pick (dictionary d) (gen pos mod total_count d) \<noteq> Some []
         then pick (dictionary d) (gen pos mod total_count d) = Some t \<and>
              drawn gen cp n (pos + 1) (drop 1 ctx @ [t]) ts
         else (let pos' = (if 0 < total_count d then pos + 1 else pos)
               in t \<noteq> [] \<and> pick (dictionary s) (gen pos' mod total_count s) = Some t \<and>
                  drawn gen cp n (pos' + 1) (drop 1 (replicate (n - 1) []) @ [t]) ts))"
section \<open>Counting distributions: totals and probabilities\<close>

lemma init_empty:
  "CountingProbDist_init [] dflt =
     \<lparr>dictionary = [], default_count = dflt, needs_recompute = False, table = [], n_obs = 0\<rparr>"
  by (simp add: CountingProbDist_init_def)

lemma recompute_loop_fst: "fst (recompute_loop es n t) = n + sum_list (map snd es)"
  by (induction es n t rule: recompute_loop.induct) auto

lemma dd_get_dd_set: "dd_get (dd_set es k v) d k' = (if k' = k then v else dd_get es d k')"
  by (induction es k v rule: dd_set.induct) (auto simp: dd_get_def)

lemma sum_dd_set:
  "sum_list (map snd (dd_set es k v)) + dd_get es 0 k = sum_list (map snd es) + (v::nat)"
  by (induction es k v rule: dd_set.induct) (auto simp: dd_get_def)

lemma add_fields:
  "default_count (CountingProbDist_add d x) = default_count d"
  "needs_recompute (CountingProbDist_add d x)"
  "n_obs (CountingProbDist_add d x) = n_obs d + 1"
  "dd_get (dictionary (CountingProbDist_add d x)) c ob
     = (if ob = x then dd_get (dictionary d) (default_count d) x + 1 else dd_get (dictionary d) c ob)"
  by (simp_all add: CountingProbDist_add_def dd_get_dd_set)

lemma add_sum:
  "default_count d = 0 \<Longrightarrow>
   sum_list (map snd (dictionary (CountingProbDist_add d x))) = sum_list (map snd (dictionary d)) + 1"
  using sum_dd_set[of "dictionary d" x "dd_get (dictionary d) 0 x + 1"]
  by (simp add: CountingProbDist_add_def)

lemma foldl_add_fields:
  "default_count (foldl CountingProbDist_add d xs) = default_count d"
  "xs \<noteq> [] \<Longrightarrow> needs_recompute (foldl CountingProbDist_add d xs)"
  "n_obs (foldl CountingProbDist_add d xs) = n_obs d + real (length xs)"
  by (induction xs rule: rev_induct) (simp_all add: add_fields)

lemma foldl_add_count:
  "dd_get (dictionary (foldl CountingProbDist_add d xs)) (default_count d) ob
     = dd_get (dictionary d) (default_count d) ob + count_list xs ob"
  by (induction xs rule: rev_induct) (auto simp: add_fields foldl_add_fields)

lemma foldl_add_sum:
  "default_count d = 0 \<Longrightarrow> sum_list (map snd (dictionary (foldl CountingProbDist_add d xs)))
     = sum_list (map snd (dictionary d)) + length xs"
  by (induction xs rule: rev_induct) (simp_all add: add_sum foldl_add_fields)

lemma n_obs_recompute:
  "n_obs (CountingProbDist_recompute d) = real (sum_list (map snd (dictionary d)))"
  "dictionary (CountingProbDist_recompute d) = dictionary d"
  "default_count (CountingProbDist_recompute d) = default_count d"
  using recompute_loop_fst[of "dictionary d" 0 "[]"]
  by (auto simp: CountingProbDist_recompute_def split: prod.splits)

lemma init_total:
  "n_obs (recompute_if_needed (CountingProbDist_init xs 0)) = real (length xs)"
  by (cases "xs = []")
     (simp_all add: CountingProbDist_init_def recompute_if_needed_def n_obs_recompute
        foldl_add_fields foldl_add_sum)

lemma init_getitem:
  "xs \<noteq> [] \<Longrightarrow> fst (CountingProbDist_getitem (CountingProbDist_init xs 0) ob)
      = Inr (real (count_list xs ob) / real (length xs))"
  using foldl_add_count[of "\<lparr>dictionary = [], default_count = 0, needs_recompute = False,
        table = [], n_obs = 0\<rparr>" xs ob]
  by (simp add: CountingProbDist_getitem_def Let_def init_total py_truediv_def)
     (simp add: CountingProbDist_init_def recompute_if_needed_def n_obs_recompute
        foldl_add_fields dd_get_def)

text \<open>
  C1 (the code at the failing input). The claim: a probability lookup on a distribution
  whose total is 0 returns 0.0 and never divides by zero. In the code, \<open>__getitem__\<close>
  divides by \<open>n_obs\<close> with no guard, so on a freshly constructed distribution, whatever
  its default count and whatever the observation asked for, the lookup raises
  \<open>ZeroDivisionError\<close>.
\<close>

theorem C1_getitem_empty_raises:
  "fst (CountingProbDist_getitem (CountingProbDist_init [] dflt) ob) = Inl ZeroDivisionError"
  by (simp add: init_empty CountingProbDist_getitem_def recompute_if_needed_def py_truediv_def)

text \<open>
  C9 (as stated, at the empty sequence). The claim: for every sequence of observations
  added to a fresh unsmoothed distribution, the probabilities of the distinct observed
  observations sum to 1. For the sequence of no observations there is nothing to sum,
  and the sum is 0.
\<close>

theorem C9_empty_sequence_counterexample:
  "observed_mass ([] :: string list) \<noteq> 1"
  by (simp add: observed_mass_def)

text \<open>
  C9 (amended). For every sequence \<open>xs\<close> of \<open>N\<close> observations added one by one to a fresh
  unsmoothed distribution, \<open>__len__\<close> returns \<open>N\<close>, which is the sum of the counts held
  in the dictionary when it is read; and when \<open>N > 0\<close>, every probability lookup
  returns a value and the probabilities of the distinct observations of \<open>xs\<close> sum to 1
  (exactly, floats being read as reals).
\<close>

theorem C9_adds_total_and_probabilities:
  "fst (CountingProbDist_len (CountingProbDist_init xs 0)) = real (length xs) \<and>
   fst (CountingProbDist_len (CountingProbDist_init xs 0))
     = real (sum_list (map snd (dictionary (snd (CountingProbDist_len (CountingProbDist_init xs 0)))))) \<and>
   (xs \<noteq> [] \<longrightarrow>
      (\<forall>ob. \<exists>p. fst (CountingProbDist_getitem (CountingProbDist_init xs 0) ob) = Inr p) \<and>
      observed_mass xs = 1)"
proof -
  have len: "fst (CountingProbDist_len (CountingProbDist_init xs 0)) = real (length xs)"
    by (simp add: CountingProbDist_len_def Let_def init_total)
  have "sum_list (map snd (dictionary (recompute_if_needed (CountingProbDist_init xs 0)))) = length xs"
    by (simp add: CountingProbDist_init_def recompute_if_needed_def n_obs_recompute foldl_add_sum)
  then have tot: "fst (CountingProbDist_len (CountingProbDist_init xs 0))
     = real (sum_list (map snd (dictionary (snd (CountingProbDist_len (CountingProbDist_init xs 0))))))"
    by (simp add: CountingProbDist_len_def Let_def init_total)
  have probs: "observed_mass xs = 1" if ne: "xs \<noteq> []"
  proof -
    have "observed_mass xs = (\<Sum>ob\<in>set xs. real (count_list xs ob) / real (length xs))"
      by (simp add: observed_mass_def init_getitem[OF ne])
    also have "\<dots> = real (\<Sum>ob\<in>set xs. count_list xs ob) / real (length xs)"
      by (simp add: sum_divide_distrib)
    also have "\<dots> = 1"
      using ne by (simp add: sum_count_set)
    finally show ?thesis .
  qed
  have ex: "\<exists>p. fst (CountingProbDist_getitem (CountingProbDist_init xs 0) ob) = Inr p"
    if "xs \<noteq> []" for ob
    using init_getitem[OF that] by simp
  from len tot probs ex show ?thesis by (intro conjI impI allI)
qed

theorem C9_adds_total_and_probabilities_witness:
  "[''a'', ''b'', ''a''] \<noteq> ([] :: string list) \<and>
   fst (CountingProbDist_len (CountingProbDist_init [''a'', ''b'', ''a''] 0)) = 3 \<and>
   fst (CountingProbDist_getitem (CountingProbDist_init [''a'', ''b'', ''a''] 0) ''a'') = Inr (2 / 3) \<and>
   observed_mass [''a'', ''b'', ''a''] = 1"
  using C9_adds_total_and_probabilities [of "[''a'', ''b'', ''a'']"]
    init_getitem [of "[''a'', ''b'', ''a'']" "''a''"]
  by simp

section \<open>Cipher codec: rot13\<close>

lemma letters_eq: "alphabet @ upper alphabet = ''abcdefghijklmnopqrstuvwxyzABCDEFGHIJKLMNOPQRSTUVWXYZ''"
  by code_simp

lemma rot13_code_eq:
  "(slice_from alphabet 13 @ slice_upto alphabet 13) @ upper (slice_from alphabet 13 @ slice_upto alphabet 13)
     = ''nopqrstuvwxyzabcdefghijklmNOPQRSTUVWXYZABCDEFGHIJKLM''"
  by code_simp

lemma rot13_eq: "rot13 x = Inr (map rot13_char x)"
  unfolding rot13_def shift_encode_def encode_def maketrans_def letters_eq rot13_code_eq
  by (simp add: translate_def and_then_def rot13_char_def)

lemma rot13_char_other:
  "c \<notin> set (alphabet @ upper alphabet) \<Longrightarrow> rot13_char c = c"
  unfolding letters_eq rot13_char_def by simp

lemma rot13_char_letters:
  "\<forall>c \<in> set ''abcdefghijklmnopqrstuvwxyzABCDEFGHIJKLMNOPQRSTUVWXYZ''. rot13_char (rot13_char c) = c"
  by code_simp

lemma rot13_char_invol: "rot13_char (rot13_char c) = c"
proof (cases "c \<in> set (alphabet @ upper alphabet)")
  case True
  then show ?thesis
    unfolding letters_eq using rot13_char_letters by blast
next
  case False
  then show ?thesis by (simp add: rot13_char_other)
qed

text \<open>
  C8. For every byte string \<open>x\<close>, \<open>rot13\<close> returns a string and applying it
  again gives \<open>x\<close> back; the result has the length of \<open>x\<close>, and every character of
  \<open>x\<close> that is not one of the 52 ASCII letters (digit, punctuation, whitespace) is at
  its position unchanged.
\<close>

theorem C8_rot13_involution:
  "and_then (rot13 x) rot13 = Inr x \<and>
   (\<exists>y. rot13 x = Inr y \<and> length y = length x \<and>
        (\<forall>i < length x. x ! i \<notin> set (alphabet @ upper alphabet) \<longrightarrow> y ! i = x ! i))"
  by (simp add: rot13_eq and_then_def rot13_char_invol rot13_char_other map_idI)

theorem C8_rot13_involution_witness:
  "and_then (rot13 ''Hi, 42!'') rot13 = Inr ''Hi, 42!'' \<and> rot13 ''Hi, 42!'' = Inr ''Uv, 42!''
   \<and> ''Hi, 42!'' ! 2 \<notin> set (alphabet @ upper alphabet)"
  using C8_rot13_involution [of "''Hi, 42!''"]
  by (simp add: rot13_eq rot13_char_def letters_eq)

section \<open>N-gram model: the sliding window\<close>

text \<open>
  C3 (as stated). The claim: after \<open>add_sequence\<close> of \<open>["a","b","a","b"]\<close> on a fresh
  bigram model, the conditional distribution keyed by \<open>("a",)\<close> holds \<open>"b"\<close> with
  count 2. The loop runs over \<open>range(len(words) - n)\<close>, so the last window
  \<open>("a","b")\<close> is never added and the count is not 2.
\<close>

theorem C3_count_after_a_counterexample:
  "cond_count (NgramTextModel_init 2 [''a'', ''b'', ''a'', ''b'']) [''a''] ''b'' \<noteq> Inr 2"
  by code_simp

text \<open>
  C3 (amended). After \<open>add_sequence\<close> of \<open>["a","b","a","b"]\<close> on a fresh bigram model,
  the conditional distribution keyed by \<open>("",)\<close> holds \<open>"a"\<close> with count 1, the one
  keyed by \<open>("a",)\<close> holds \<open>"b"\<close> with count 1 and the one keyed by \<open>("b",)\<close> holds
  \<open>"a"\<close> with count 1: the windows added are \<open>("","a")\<close>, \<open>("a","b")\<close> and
  \<open>("b","a")\<close>, once each, and the trailing window \<open>("a","b")\<close> is left out.
\<close>

theorem C3_bigram_counts:
  "cond_count (NgramTextModel_init 2 [''a'', ''b'', ''a'', ''b'']) [''''] ''a'' = Inr 1 \<and>
   cond_count (NgramTextModel_init 2 [''a'', ''b'', ''a'', ''b'']) [''a''] ''b'' = Inr 1 \<and>
   cond_count (NgramTextModel_init 2 [''a'', ''b'', ''a'', ''b'']) [''b''] ''a'' = Inr 1 \<and>
   ngram_count (NgramTextModel_init 2 [''a'', ''b'', ''a'', ''b'']) ['''', ''a''] = Inr 1 \<and>
   ngram_count (NgramTextModel_init 2 [''a'', ''b'', ''a'', ''b'']) [''a'', ''b''] = Inr 1 \<and>
   ngram_count (NgramTextModel_init 2 [''a'', ''b'', ''a'', ''b'']) [''b'', ''a''] = Inr 1"
  by code_simp

section \<open>Viterbi segmentation: what the loops record\<close>

lemma refresh_fields:
  "needs_recompute (recompute_if_needed P) = False"
  "dictionary (recompute_if_needed P) = dictionary P"
  "default_count (recompute_if_needed P) = default_count P"
  by (simp_all add: recompute_if_needed_def CountingProbDist_recompute_def split: prod.splits)

lemma refresh_idem: "recompute_if_needed (recompute_if_needed P) = recompute_if_needed P"
  using refresh_fields(1)[of P] by (simp add: recompute_if_needed_def[of "recompute_if_needed P"])

lemma getitem_snd: "snd (CountingProbDist_getitem P w) = recompute_if_needed P"
  by (simp add: CountingProbDist_getitem_def Let_def)

lemma getitem_fst_cong:
  "recompute_if_needed Pc = recompute_if_needed P \<Longrightarrow>
   fst (CountingProbDist_getitem Pc w) = fst (CountingProbDist_getitem P w)"
  by (simp add: CountingProbDist_getitem_def Let_def)

lemma getitem_ok:
  "n_obs (recompute_if_needed P) \<noteq> 0 \<Longrightarrow>
   fst (CountingProbDist_getitem P w) = Inr (projr (fst (CountingProbDist_getitem P w)))"
  by (simp add: CountingProbDist_getitem_def Let_def py_truediv_def)

lemma getitem_nonneg:
  "n_obs (recompute_if_needed P) > 0 \<Longrightarrow> projr (fst (CountingProbDist_getitem P w)) \<ge> 0"
  by (simp add: CountingProbDist_getitem_def Let_def py_truediv_def)

lemma for_each_append:
  "for_each (xs @ ys) body s = and_then (for_each xs body s) (for_each ys body)"
  by (induction xs arbitrary: s) (auto simp: and_then_def split: sum.splits)

lemma viterbi_step_eq:
  assumes "n_obs (recompute_if_needed P) \<noteq> 0" "recompute_if_needed Pc = recompute_if_needed P"
    "j < i" "i \<le> length text"
  shows "viterbi_step text i (Pc, bw) j = Inr (recompute_if_needed P, vstep text P i bw j)"
proof -
  obtain best wds where bw: "bw = (best, wds)" by (cases bw)
  have len: "i - length (slice text j i) = j"
    using assms(3,4) by (simp add: slice_def)
  have g1: "CountingProbDist_getitem Pc (slice text j i)
      = (Inr (projr (fst (CountingProbDist_getitem P (slice text j i)))), recompute_if_needed P)"
    using getitem_ok[OF assms(1)] getitem_fst_cong[OF assms(2)] getitem_snd[of Pc] assms(2)
    by (metis prod.collapse)
  have g2: "CountingProbDist_getitem (recompute_if_needed P) (slice text j i)
      = (Inr (projr (fst (CountingProbDist_getitem P (slice text j i)))), recompute_if_needed P)"
    using getitem_ok[OF assms(1)] getitem_fst_cong[OF refresh_idem] getitem_snd[of "recompute_if_needed P"]
      refresh_idem[of P]
    by (metis prod.collapse)
  show ?thesis
    by (simp add: viterbi_step_def bw Let_def g1 g2 len and_then_def vstep_def candidate_def)
qed

lemma inner_loop_eq:
  assumes "n_obs (recompute_if_needed P) \<noteq> 0" "recompute_if_needed Pc = recompute_if_needed P"
    "m \<le> i" "i \<le> length text"
  shows "\<exists>Pc'. for_each [0 ..< m] (viterbi_step text i) (Pc, bw)
            = Inr (Pc', foldl (vstep text P i) bw [0 ..< m])
          \<and> recompute_if_needed Pc' = recompute_if_needed P"
  using assms(3)
proof (induction m)
  case 0
  then show ?case using assms(2) by simp
next
  case (Suc m)
  then obtain Pc' where a: "for_each [0 ..< m] (viterbi_step text i) (Pc, bw)
            = Inr (Pc', foldl (vstep text P i) bw [0 ..< m])"
    and b: "recompute_if_needed Pc' = recompute_if_needed P" by auto
  have "m < i" using Suc.prems by simp
  from viterbi_step_eq[OF assms(1) b this assms(4)]
  show ?case
    by (simp add: for_each_append a and_then_def refresh_idem)
qed

lemma outer_loop_eq:
  assumes "n_obs (recompute_if_needed P) \<noteq> 0" "recompute_if_needed Pc = recompute_if_needed P"
    "m \<le> length text + 1"
  shows "\<exists>Pc'. for_each [0 ..< m] (\<lambda>s i. for_each [0 ..< i] (viterbi_step text i) s) (Pc, bw)
            = Inr (Pc', foldl (\<lambda>bw i. foldl (vstep text P i) bw [0 ..< i]) bw [0 ..< m])
          \<and> recompute_if_needed Pc' = recompute_if_needed P"
  using assms(3)
proof (induction m)
  case 0
  then show ?case using assms(2) by simp
next
  case (Suc m)
  then obtain Pc' where a: "for_each [0 ..< m] (\<lambda>s i. for_each [0 ..< i] (viterbi_step text i) s) (Pc, bw)
            = Inr (Pc', foldl (\<lambda>bw i. foldl (vstep text P i) bw [0 ..< i]) bw [0 ..< m])"
    and b: "recompute_if_needed Pc' = recompute_if_needed P" by auto
  have "m \<le> length text" using Suc.prems by simp
  from inner_loop_eq[OF assms(1) b order_refl this,
      of "foldl (\<lambda>bw i. foldl (vstep text P i) bw [0 ..< i]) bw [0 ..< m]"]
  obtain Pc'' where c: "for_each [0 ..< m] (viterbi_step text m)
        (Pc', foldl (\<lambda>bw i. foldl (vstep text P i) bw [0 ..< i]) bw [0 ..< m])
      = Inr (Pc'', foldl (vstep text P m)
           (foldl (\<lambda>bw i. foldl (vstep text P i) bw [0 ..< i]) bw [0 ..< m]) [0 ..< m])"
    and d: "recompute_if_needed Pc'' = recompute_if_needed P" by blast
  show ?case
    by (simp add: for_each_append a and_then_def c d)
qed

lemma vstep_frame:
  assumes "(best', wds') = vstep text P i (best, wds) j"
  shows "length best' = length best" "length wds' = length wds"
    "k \<noteq> i \<Longrightarrow> best' ! k = best ! k" "k \<noteq> i \<Longrightarrow> wds' ! k = wds ! k"
  using assms by (auto simp: vstep_def Let_def split: if_splits)

lemma candidate_cong:
  "best' ! j = best ! j \<Longrightarrow> candidate text P best' j i = candidate text P best j i"
  by (simp add: candidate_def)

lemma inner_inv:
  assumes i: "i < length best" "i < length wds"
    and zero: "best ! i = 0"
    and nonneg: "\<And>k. k < i \<Longrightarrow> candidate text P best k i \<ge> 0"
    and m: "m \<le> i"
    and res: "(best', wds') = foldl (vstep text P i) (best, wds) [0 ..< m]"
  shows "length best' = length best \<and> length wds' = length wds \<and>
         (\<forall>k. k \<noteq> i \<longrightarrow> best' ! k = best ! k \<and> wds' ! k = wds ! k) \<and>
         (m = 0 \<longrightarrow> best' ! i = 0) \<and>
         (m > 0 \<longrightarrow> recorded_upto text P best' wds' i m)"
  using m res
proof (induction m arbitrary: best' wds')
  case 0
  then show ?case using zero by simp
next
  case (Suc m)
  obtain b1 w1 where r1: "(b1, w1) = foldl (vstep text P i) (best, wds) [0 ..< m]"
    by (metis surj_pair)
  from Suc.prems have mi: "m < i" by simp
  from Suc.IH[OF _ r1] mi
  have len: "length b1 = length best" "length w1 = length wds"
    and frame: "\<And>k. k \<noteq> i \<Longrightarrow> b1 ! k = best ! k \<and> w1 ! k = wds ! k"
    and z: "m = 0 \<Longrightarrow> b1 ! i = 0"
    and rec: "m > 0 \<Longrightarrow> recorded_upto text P b1 w1 i m"
    by auto
  have step: "(best', wds') = vstep text P i (b1, w1) m"
    using Suc.prems(2) r1[symmetric] by simp
  have cand: "candidate text P b1 k i = candidate text P best k i" if "k < i" for k
    using frame[of k] that by (simp add: candidate_def)
  have cand': "candidate text P best' k i = candidate text P best k i" if "k < i" for k
    using vstep_frame(3)[OF step, of k] frame[of k] that by (simp add: candidate_def)
  let ?c = "\<lambda>k. candidate text P best k i"
  have ib: "i < length b1" "i < length w1" using i len by simp_all
  have frame': "\<forall>k. k \<noteq> i \<longrightarrow> best' ! k = best ! k \<and> wds' ! k = wds ! k"
    using vstep_frame(3,4)[OF step] frame by simp
  have lens: "length best' = length best \<and> length wds' = length wds"
    using vstep_frame(1,2)[OF step] len by simp
  have "recorded_upto text P best' wds' i (Suc m)"
  proof (cases "?c m \<ge> b1 ! i")
    case True
    then have upd: "best' = b1[i := ?c m]" "wds' = w1[i := slice text m i]"
      using step cand[OF mi] by (simp_all add: vstep_def Let_def)
    have bi: "best' ! i = ?c m" "wds' ! i = slice text m i"
      using upd ib by simp_all
    have le: "?c k \<le> ?c m" if "k < Suc m" for k
    proof (cases "k = m")
      case True then show ?thesis by simp
    next
      case False
      then have km: "k < m" using that by simp
      then have "m > 0" by simp
      from rec[OF this] km have "candidate text P b1 k i \<le> b1 ! i"
        by (auto simp: recorded_upto_def)
      then show ?thesis using cand[of k] km mi True by simp
    qed
    show ?thesis
      unfolding recorded_upto_def
    proof (intro exI[of _ m] conjI allI impI)
      show "m < Suc m" by simp
      show "wds' ! i = slice text m i" by (rule bi(2))
      show "best' ! i = candidate text P best' m i" using bi(1) cand'[OF mi] by simp
      show "candidate text P best' k i \<le> best' ! i" if "k < Suc m" for k
        using le[OF that] cand'[of k] that mi bi(1) by simp
      show "candidate text P best' k i < best' ! i" if "m < k \<and> k < Suc m" for k
        using that by simp
    qed
  next
    case False
    then have same: "best' = b1" "wds' = w1"
      using step cand[OF mi] by (simp_all add: vstep_def Let_def)
    have mpos: "m > 0"
    proof (rule ccontr)
      assume "\<not> m > 0"
      then have "b1 ! i = 0" using z by simp
      then show False using False nonneg[OF mi] by simp
    qed
    from rec[OF mpos] obtain j where j: "j < m" "w1 ! i = slice text j i"
      "b1 ! i = candidate text P b1 j i"
      "\<forall>k<m. candidate text P b1 k i \<le> b1 ! i"
      "\<forall>k. j < k \<and> k < m \<longrightarrow> candidate text P b1 k i < b1 ! i"
      by (auto simp: recorded_upto_def)
    show ?thesis
      unfolding recorded_upto_def same
    proof (intro exI[of _ j] conjI allI impI)
      show "j < Suc m" using j(1) by simp
      show "w1 ! i = slice text j i" by (rule j(2))
      show "b1 ! i = candidate text P b1 j i" by (rule j(3))
      show "candidate text P b1 k i \<le> b1 ! i" if "k < Suc m" for k
      proof (cases "k = m")
        case True then show ?thesis using False cand[OF mi] by simp
      next
        case False then show ?thesis using j(4) that by simp
      qed
      show "candidate text P b1 k i < b1 ! i" if "j < k \<and> k < Suc m" for k
      proof (cases "k = m")
        case True then show ?thesis using False cand[OF mi] by simp
      next
        case False then show ?thesis using j(5) that by simp
      qed
    qed
  qed
  then show ?case using lens frame' by simp
qed

lemma recorded_upto_cong:
  assumes "\<And>k. k \<le> i \<Longrightarrow> best' ! k = best ! k" "wds' ! i = wds ! i" "m \<le> i"
    and "recorded_upto text P best wds i m"
  shows "recorded_upto text P best' wds' i m"
proof -
  have c: "candidate text P best' k i = candidate text P best k i" if "k < m" for k
    using assms(1)[of k] assms(3) that by (simp add: candidate_def)
  from assms(4) obtain j where j: "j < m" "wds ! i = slice text j i"
      "best ! i = candidate text P best j i"
      "\<forall>k<m. candidate text P best k i \<le> best ! i"
      "\<forall>k. j < k \<and> k < m \<longrightarrow> candidate text P best k i < best ! i"
    by (auto simp: recorded_upto_def)
  have bi: "best' ! i = best ! i" using assms(1)[of i] by simp
  show ?thesis
    unfolding recorded_upto_def
  proof (intro exI[of _ j] conjI allI impI)
    show "j < m" by (rule j(1))
    show "wds' ! i = slice text j i" using j(2) assms(2) by simp
    show "best' ! i = candidate text P best' j i" using j(3) bi c[OF j(1)] by simp
    show "candidate text P best' k i \<le> best' ! i" if "k < m" for k
      using j(4) that c[OF that] bi by simp
    show "candidate text P best' k i < best' ! i" if "j < k \<and> k < m" for k
      using j(5) that c[of k] bi by simp
  qed
qed

lemma outer_inv:
  assumes pos: "n_obs (recompute_if_needed P) > 0"
    and m: "m \<le> length text + 1"
    and res: "(best', wds') = foldl (\<lambda>bw i. foldl (vstep text P i) bw [0 ..< i])
                 ([1] @ replicate (length text) 0, [''''] @ map (\<lambda>c. [c]) text) [0 ..< m]"
  shows "length best' = length text + 1 \<and> length wds' = length text + 1 \<and>
         (\<forall>k. m \<le> k \<and> k \<le> length text \<and> 0 < k \<longrightarrow> best' ! k = 0) \<and>
         (\<forall>k \<le> length text. best' ! k \<ge> 0) \<and>
         (\<forall>i. 1 \<le> i \<and> i < m \<longrightarrow> recorded_upto text P best' wds' i i)"
  using m res
proof (induction m arbitrary: best' wds')
  case 0
  then have b: "best' = [1] @ replicate (length text) 0" and w: "wds' = [''''] @ map (\<lambda>c. [c]) text"
    by simp_all
  have z: "best' ! k = 0" if "0 < k" "k \<le> length text" for k
    using that unfolding b by (cases k) simp_all
  have nn: "best' ! k \<ge> 0" if "k \<le> length text" for k
    using that unfolding b by (cases k) simp_all
  have l: "length best' = length text + 1" "length wds' = length text + 1"
    using b w by simp_all
  show ?case
  proof (intro conjI allI impI)
    show "length best' = length text + 1" by (rule l(1))
    show "length wds' = length text + 1" by (rule l(2))
    show "best' ! k = 0" if "0 \<le> k \<and> k \<le> length text \<and> 0 < k" for k
      using z[of k] that by simp
    show "0 \<le> best' ! k" if "k \<le> length text" for k by (rule nn[OF that])
    show "recorded_upto text P best' wds' i i" if "1 \<le> i \<and> i < 0" for i
      using that by simp
  qed
next
  case (Suc m)
  obtain b1 w1 where r1: "(b1, w1) = foldl (\<lambda>bw i. foldl (vstep text P i) bw [0 ..< i])
                 ([1] @ replicate (length text) 0, [''''] @ map (\<lambda>c. [c]) text) [0 ..< m]"
    by (cases "foldl (\<lambda>bw i. foldl (vstep text P i) bw [0 ..< i])
                 ([1] @ replicate (length text) 0, [''''] @ map (\<lambda>c. [c]) text) [0 ..< m]") simp
  from Suc.prems have mn: "m \<le> length text" by simp
  have mle: "m \<le> length text + 1" using mn by simp
  note IH = Suc.IH[OF mle r1]
  have len: "length b1 = length text + 1" "length w1 = length text + 1"
    using IH[THEN conjunct1] IH[THEN conjunct2, THEN conjunct1] by simp_all
  have zero: "b1 ! k = 0" if "m \<le> k" "k \<le> length text" "0 < k" for k
    using IH[THEN conjunct2, THEN conjunct2, THEN conjunct1] that by blast
  have nn: "b1 ! k \<ge> 0" if "k \<le> length text" for k
    using IH[THEN conjunct2, THEN conjunct2, THEN conjunct2, THEN conjunct1] that by blast
  have rec: "recorded_upto text P b1 w1 i i" if "1 \<le> i" "i < m" for i
    using IH[THEN conjunct2, THEN conjunct2, THEN conjunct2, THEN conjunct2] that by blast
  have step: "(best', wds') = foldl (vstep text P m) (b1, w1) [0 ..< m]"
    using Suc.prems(2) r1[symmetric] by simp
  show ?case
  proof (cases "m = 0")
    case True
    then have e: "best' = b1" "wds' = w1" using step by simp_all
    show ?thesis
      unfolding e
    proof (intro conjI allI impI)
      show "length b1 = length text + 1" by (rule len(1))
      show "length w1 = length text + 1" by (rule len(2))
      show "b1 ! k = 0" if "Suc m \<le> k \<and> k \<le> length text \<and> 0 < k" for k
        using zero[of k] that by simp
      show "0 \<le> b1 ! k" if "k \<le> length text" for k by (rule nn[OF that])
      show "recorded_upto text P b1 w1 i i" if "1 \<le> i \<and> i < Suc m" for i
        using that True by auto
    qed
  next
    case False
    then have mpos: "0 < m" by simp
    have z: "b1 ! m = 0" using zero[of m] mn mpos by simp
    have cn: "candidate text P b1 k m \<ge> 0" if "k < m" for k
      using getitem_nonneg[OF pos, of "slice text k m"] nn[of k] that mn
      by (simp add: candidate_def)
    have mb: "m < length b1" "m < length w1" using len mn by simp_all
    note II = inner_inv[OF mb z cn order_refl step]
    have len': "length best' = length b1" "length wds' = length w1"
      using II[THEN conjunct1] II[THEN conjunct2, THEN conjunct1] by simp_all
    have frame: "best' ! k = b1 ! k \<and> wds' ! k = w1 ! k" if "k \<noteq> m" for k
      using II[THEN conjunct2, THEN conjunct2, THEN conjunct1] that by blast
    have recm: "recorded_upto text P best' wds' m m"
      using II[THEN conjunct2, THEN conjunct2, THEN conjunct2, THEN conjunct2] mpos by blast
    from recm obtain j where j: "j < m" "best' ! m = candidate text P best' j m"
      by (auto simp: recorded_upto_def)
    have bm: "best' ! m \<ge> 0"
      using j cn[OF j(1)] frame[of j] by (simp add: candidate_def)
    have nn': "best' ! k \<ge> 0" if "k \<le> length text" for k
      using bm nn[OF that] frame[of k] by (cases "k = m") simp_all
    have zero': "best' ! k = 0" if "Suc m \<le> k" "k \<le> length text" "0 < k" for k
      using zero[of k] frame[of k] that by simp
    have rec': "recorded_upto text P best' wds' i i" if "1 \<le> i" "i < Suc m" for i
    proof (cases "i = m")
      case True then show ?thesis using recm by simp
    next
      case False
      then have im: "i < m" using that by simp
      show ?thesis
      proof (rule recorded_upto_cong[OF _ _ order_refl rec[OF that(1) im]])
        show "best' ! k = b1 ! k" if "k \<le> i" for k using frame[of k] that im by simp
        show "wds' ! i = w1 ! i" using frame[of i] im by simp
      qed
    qed
    have l: "length best' = length text + 1" "length wds' = length text + 1"
      using len len' by simp_all
    show ?thesis
    proof (intro conjI allI impI)
      show "length best' = length text + 1" by (rule l(1))
      show "length wds' = length text + 1" by (rule l(2))
      show "best' ! k = 0" if "Suc m \<le> k \<and> k \<le> length text \<and> 0 < k" for k
        using zero'[of k] that by blast
      show "0 \<le> best' ! k" if "k \<le> length text" for k by (rule nn'[OF that])
      show "recorded_upto text P best' wds' i i" if "1 \<le> i \<and> i < Suc m" for i
        using rec'[of i] that by blast
    qed
  qed
qed

lemma fill_eq:
  assumes "n_obs (recompute_if_needed P) \<noteq> 0"
  shows "viterbi_tables text P
     = Inr (foldl (\<lambda>bw i. foldl (vstep text P i) bw [0 ..< i])
              ([1] @ replicate (length text) 0, [''''] @ map (\<lambda>c. [c]) text) [0 ..< length text + 1])"
  using outer_loop_eq[OF assms refl order_refl, of "text"
      "([1] @ replicate (length text) 0, [''''] @ map (\<lambda>c. [c]) text)"]
  by (auto simp: viterbi_tables_def viterbi_fill_def Let_def and_then_def)

text \<open>
  C4 (as stated). The claim: among the candidates that tie at the maximum for an end
  position, the recorded word is the last one met as \<open>j\<close> grows, which is the longest.
  With the model built from \<open>["aa","a","a","x"]\<close> and the text \<open>"aa"\<close>, the
  candidates for end position 2 are \<open>"aa"\<close> (start 0) and \<open>"a"\<close> (start 1); both
  score 1/4, and the word recorded at position 2 is \<open>"a"\<close>, the shorter one: a later
  start gives a shorter word.
\<close>

theorem C4_longest_word_counterexample:
  "viterbi_tables ''aa'' (CountingProbDist_init [''aa'', ''a'', ''a'', ''x''] 0)
     = Inr ([1, 1 / 2, 1 / 4], ['''', ''a'', ''a'']) \<and>
   slice ''aa'' 0 2 = ''aa'' \<and> slice ''aa'' 1 2 = ''a'' \<and>
   candidate ''aa'' (CountingProbDist_init [''aa'', ''a'', ''a'', ''x''] 0) [1, 1 / 2, 1 / 4] 0 2 = 1 / 4 \<and>
   candidate ''aa'' (CountingProbDist_init [''aa'', ''a'', ''a'', ''x''] 0) [1, 1 / 2, 1 / 4] 1 2 = 1 / 4"
  by code_simp

text \<open>
  C4 (amended). For a model with a positive total, the loops fill the vectors without
  raising, and for every end position \<open>i\<close> from 1 to \<open>len(text)\<close> the word recorded
  as best ending at \<open>i\<close> is \<open>text[j:i]\<close> for a start \<open>j\<close> whose candidate
  probability \<open>P[text[j:i]] * best[j]\<close> is \<open>best[i]\<close>, is not exceeded by any
  candidate, and is strictly above every candidate with a later start: the last tying
  candidate met as \<open>j\<close> grows wins, which is the shortest word achieving the maximum.
\<close>

theorem C4_last_tying_candidate_wins:
  assumes "n_obs (recompute_if_needed P) > 0"
  shows "\<exists>best wds. viterbi_tables text P = Inr (best, wds) \<and>
     (\<forall>i. 1 \<le> i \<and> i \<le> length text \<longrightarrow>
        (\<exists>j<i. wds ! i = slice text j i \<and> best ! i = candidate text P best j i \<and>
           (\<forall>k<i. candidate text P best k i \<le> best ! i) \<and>
           (\<forall>k. j < k \<and> k < i \<longrightarrow> candidate text P best k i < best ! i)))"
proof -
  obtain best wds where bw: "(best, wds) = foldl (\<lambda>bw i. foldl (vstep text P i) bw [0 ..< i])
              ([1] @ replicate (length text) 0, [''''] @ map (\<lambda>c. [c]) text) [0 ..< length text + 1]"
    by (cases "foldl (\<lambda>bw i. foldl (vstep text P i) bw [0 ..< i])
              ([1] @ replicate (length text) 0, [''''] @ map (\<lambda>c. [c]) text) [0 ..< length text + 1]") simp
  from assms have ne: "n_obs (recompute_if_needed P) \<noteq> 0" by simp
  have t: "viterbi_tables text P = Inr (best, wds)"
    using fill_eq[OF ne, of "text"] bw by simp
  from outer_inv[OF assms order_refl bw]
  have "\<forall>i. 1 \<le> i \<and> i \<le> length text \<longrightarrow> recorded_upto text P best wds i i"
    by auto
  then show ?thesis using t unfolding recorded_upto_def by blast
qed


theorem C4_last_tying_candidate_wins_witness:
  "0 < n_obs (recompute_if_needed (CountingProbDist_init [''aa'', ''a'', ''a'', ''x''] 0)) \<and>
   (\<exists>best wds. viterbi_tables ''aa'' (CountingProbDist_init [''aa'', ''a'', ''a'', ''x''] 0) = Inr (best, wds) \<and>
     (\<forall>i. 1 \<le> i \<and> i \<le> length ''aa'' \<longrightarrow>
        (\<exists>j<i. wds ! i = slice ''aa'' j i \<and>
           best ! i = candidate ''aa'' (CountingProbDist_init [''aa'', ''a'', ''a'', ''x''] 0) best j i \<and>
           (\<forall>k<i. candidate ''aa'' (CountingProbDist_init [''aa'', ''a'', ''a'', ''x''] 0) best k i \<le> best ! i) \<and>
           (\<forall>k. j < k \<and> k < i \<longrightarrow>
              candidate ''aa'' (CountingProbDist_init [''aa'', ''a'', ''a'', ''x''] 0) best k i < best ! i))))"
proof -
  have h: "0 < n_obs (recompute_if_needed (CountingProbDist_init [''aa'', ''a'', ''a'', ''x''] 0))"
    by (simp add: init_total)
  show ?thesis
    using h C4_last_tying_candidate_wins [OF h, of "''aa''"] by blast
qed

text \<open>
  C10. For every unigram model \<open>P\<close>, whatever its state, \<open>viterbi_segment\<close> on the
  empty string returns, with the empty sequence of words and the probability 1.0; the
  model is never consulted.
\<close>

theorem C10_viterbi_empty_text: "viterbi_segment '''' P = Some (Inr ([], 1))"
  by (simp add: viterbi_segment_def viterbi_fill_def viterbi_recover.simps and_then_def)

section \<open>ShiftDecoder: the answer of decode\<close>

lemma score_loop_ok:
  assumes "n_obs (recompute_if_needed P) \<noteq> 0" "recompute_if_needed Pc = recompute_if_needed P"
  shows "\<exists>Pc'. score_loop bis Pc s
            = (Inr (s * prod_list (map (\<lambda>bi. projr (fst (CountingProbDist_getitem P bi))) bis)), Pc')
          \<and> recompute_if_needed Pc' = recompute_if_needed P"
  using assms(2)
proof (induction bis arbitrary: Pc s)
  case Nil
  then show ?case by simp
next
  case (Cons bi bis)
  have g: "CountingProbDist_getitem Pc bi
      = (Inr (projr (fst (CountingProbDist_getitem P bi))), recompute_if_needed P)"
    using getitem_ok[OF assms(1), of bi] getitem_fst_cong[OF Cons.prems, of bi] getitem_snd[of Pc bi] Cons.prems
    by (metis prod.collapse)
  from Cons.IH[OF refresh_idem, of "s * projr (fst (CountingProbDist_getitem P bi))"]
  show ?case by (simp add: g mult.assoc)
qed

lemma score_ok:
  assumes "n_obs (recompute_if_needed P) \<noteq> 0 \<or> length x < 2"
    "recompute_if_needed Pc = recompute_if_needed P"
  shows "\<exists>Pc'. ShiftDecoder_score Pc x = (Inr (score_of P x), Pc')
          \<and> recompute_if_needed Pc' = recompute_if_needed P"
proof (cases "length x < 2")
  case True
  then have "bigrams x = []" by (simp add: bigrams_def)
  then show ?thesis using assms(2) by (simp add: ShiftDecoder_score_def score_of_def)
next
  case False
  then have ne: "n_obs (recompute_if_needed P) \<noteq> 0" using assms(1) by simp
  from score_loop_ok[OF ne assms(2), of "bigrams x" 1] score_loop_ok[OF ne refl, of "bigrams x" 1]
  show ?thesis by (auto simp: ShiftDecoder_score_def score_of_def)
qed

lemma argmax_loop_first_max:
  assumes fn: "\<And>s x. Inv s \<Longrightarrow> x \<in> set xs \<Longrightarrow> \<exists>s'. fn s x = (Inr (g x), s') \<and> Inv s'"
    and "Inv s"
  shows "\<exists>r s'. argmax_loop xs fn s best bs = Inr (r, s') \<and>
           ((r = best \<and> (\<forall>x\<in>set xs. g x \<le> bs)) \<or>
            (\<exists>k<length xs. r = xs ! k \<and> bs < g (xs ! k) \<and>
                 (\<forall>m<length xs. g (xs ! m) \<le> g (xs ! k)) \<and>
                 (\<forall>m<k. g (xs ! m) < g (xs ! k))))"
  using assms
proof (induction xs arbitrary: s best bs)
  case Nil
  then show ?case by simp
next
  case (Cons x xs)
  from Cons.prems(1)[OF Cons.prems(2), of x] obtain s1 where
    f: "fn s x = (Inr (g x), s1)" and i1: "Inv s1" by auto
  have fn': "\<And>s y. Inv s \<Longrightarrow> y \<in> set xs \<Longrightarrow> \<exists>s'. fn s y = (Inr (g y), s') \<and> Inv s'"
    using Cons.prems(1) by simp
  show ?case
  proof (cases "g x > bs")
    case True
    from Cons.IH[OF fn' i1, of x "g x"] obtain r s' where
      res: "argmax_loop xs fn s1 x (g x) = Inr (r, s')"
      and alt: "(r = x \<and> (\<forall>y\<in>set xs. g y \<le> g x)) \<or>
            (\<exists>k<length xs. r = xs ! k \<and> g x < g (xs ! k) \<and>
                 (\<forall>m<length xs. g (xs ! m) \<le> g (xs ! k)) \<and>
                 (\<forall>m<k. g (xs ! m) < g (xs ! k)))"
      by blast
    have eq: "argmax_loop (x # xs) fn s best bs = Inr (r, s')"
      using f True res by simp
    from alt have "\<exists>k<length (x # xs). r = (x # xs) ! k \<and> bs < g ((x # xs) ! k) \<and>
                 (\<forall>m<length (x # xs). g ((x # xs) ! m) \<le> g ((x # xs) ! k)) \<and>
                 (\<forall>m<k. g ((x # xs) ! m) < g ((x # xs) ! k))"
    proof
      assume a: "r = x \<and> (\<forall>y\<in>set xs. g y \<le> g x)"
      have "\<forall>m<length (x # xs). g ((x # xs) ! m) \<le> g x"
      proof (intro allI impI)
        fix m assume "m < length (x # xs)"
        then show "g ((x # xs) ! m) \<le> g x" using a by (cases m) auto
      qed
      then show ?thesis using a True by (intro exI[of _ 0]) simp
    next
      assume "\<exists>k<length xs. r = xs ! k \<and> g x < g (xs ! k) \<and>
                 (\<forall>m<length xs. g (xs ! m) \<le> g (xs ! k)) \<and>
                 (\<forall>m<k. g (xs ! m) < g (xs ! k))"
      then obtain k where k: "k < length xs" "r = xs ! k" "g x < g (xs ! k)"
        "\<forall>m<length xs. g (xs ! m) \<le> g (xs ! k)" "\<forall>m<k. g (xs ! m) < g (xs ! k)" by blast
      have a1: "\<forall>m<length (x # xs). g ((x # xs) ! m) \<le> g (xs ! k)"
      proof (intro allI impI)
        fix m assume "m < length (x # xs)"
        then show "g ((x # xs) ! m) \<le> g (xs ! k)" using k(3,4) by (cases m) auto
      qed
      have a2: "\<forall>m<Suc k. g ((x # xs) ! m) < g (xs ! k)"
      proof (intro allI impI)
        fix m assume "m < Suc k"
        then show "g ((x # xs) ! m) < g (xs ! k)" using k(3,5) by (cases m) auto
      qed
      show ?thesis using k(1,2,3) True a1 a2 by (intro exI[of _ "Suc k"]) simp
    qed
    then show ?thesis using eq by blast
  next
    case False
    from Cons.IH[OF fn' i1, of best bs] obtain r s' where
      res: "argmax_loop xs fn s1 best bs = Inr (r, s')"
      and alt: "(r = best \<and> (\<forall>y\<in>set xs. g y \<le> bs)) \<or>
            (\<exists>k<length xs. r = xs ! k \<and> bs < g (xs ! k) \<and>
                 (\<forall>m<length xs. g (xs ! m) \<le> g (xs ! k)) \<and>
                 (\<forall>m<k. g (xs ! m) < g (xs ! k)))"
      by blast
    have eq: "argmax_loop (x # xs) fn s best bs = Inr (r, s')"
      using f False res by simp
    from alt show ?thesis
    proof
      assume "r = best \<and> (\<forall>y\<in>set xs. g y \<le> bs)"
      then show ?thesis using eq False by auto
    next
      assume "\<exists>k<length xs. r = xs ! k \<and> bs < g (xs ! k) \<and>
                 (\<forall>m<length xs. g (xs ! m) \<le> g (xs ! k)) \<and>
                 (\<forall>m<k. g (xs ! m) < g (xs ! k))"
      then obtain k where k: "k < length xs" "r = xs ! k" "bs < g (xs ! k)"
        "\<forall>m<length xs. g (xs ! m) \<le> g (xs ! k)" "\<forall>m<k. g (xs ! m) < g (xs ! k)" by blast
      have gx: "g x < g (xs ! k)" using False k(3) by simp
      have a1: "\<forall>m<length (x # xs). g ((x # xs) ! m) \<le> g (xs ! k)"
      proof (intro allI impI)
        fix m assume "m < length (x # xs)"
        then show "g ((x # xs) ! m) \<le> g (xs ! k)" using gx k(4) by (cases m) auto
      qed
      have a2: "\<forall>m<Suc k. g ((x # xs) ! m) < g (xs ! k)"
      proof (intro allI impI)
        fix m assume "m < Suc k"
        then show "g ((x # xs) ! m) < g (xs ! k)" using gx k(5) by (cases m) auto
      qed
      have "\<exists>k<length (x # xs). r = (x # xs) ! k \<and> bs < g ((x # xs) ! k) \<and>
                 (\<forall>m<length (x # xs). g ((x # xs) ! m) \<le> g ((x # xs) ! k)) \<and>
                 (\<forall>m<k. g ((x # xs) ! m) < g ((x # xs) ! k))"
        using k(1,2,3) a1 a2 by (intro exI[of _ "Suc k"]) simp
      then show ?thesis using eq by blast
    qed
  qed
qed

lemma argmax_first_max:
  assumes fn: "\<And>s x. Inv s \<Longrightarrow> x \<in> set xs \<Longrightarrow> \<exists>s'. fn s x = (Inr (g x), s') \<and> Inv s'"
    and "Inv s" and ne: "xs \<noteq> []"
  shows "\<exists>k s'. k < length xs \<and> argmax xs fn s = Inr (xs ! k, s') \<and>
                 (\<forall>m<length xs. g (xs ! m) \<le> g (xs ! k)) \<and>
                 (\<forall>m<k. g (xs ! m) < g (xs ! k))"
proof -
  from ne obtain x ys where xs: "xs = x # ys" by (cases xs) auto
  from fn[OF assms(2), of x] obtain s1 where f: "fn s x = (Inr (g x), s1)" and i1: "Inv s1"
    by (auto simp: xs)
  have fn': "\<And>s y. Inv s \<Longrightarrow> y \<in> set ys \<Longrightarrow> \<exists>s'. fn s y = (Inr (g y), s') \<and> Inv s'"
    using fn by (simp add: xs)
  from argmax_loop_first_max[of Inv ys fn g s1 x "g x", OF fn' i1] obtain r s' where
    res: "argmax_loop ys fn s1 x (g x) = Inr (r, s')"
    and alt: "(r = x \<and> (\<forall>y\<in>set ys. g y \<le> g x)) \<or>
            (\<exists>k<length ys. r = ys ! k \<and> g x < g (ys ! k) \<and>
                 (\<forall>m<length ys. g (ys ! m) \<le> g (ys ! k)) \<and>
                 (\<forall>m<k. g (ys ! m) < g (ys ! k)))"
    by blast
  have eq: "argmax xs fn s = Inr (r, s')"
    using f res by (simp add: argmax_def xs)
  from alt show ?thesis
  proof
    assume a: "r = x \<and> (\<forall>y\<in>set ys. g y \<le> g x)"
    have "\<forall>m<length (x # ys). g ((x # ys) ! m) \<le> g x"
    proof (intro allI impI)
      fix m assume "m < length (x # ys)"
      then show "g ((x # ys) ! m) \<le> g x" using a by (cases m) auto
    qed
    then show ?thesis using a eq unfolding xs by (intro exI[of _ 0] exI[of _ s']) simp
  next
    assume "\<exists>k<length ys. r = ys ! k \<and> g x < g (ys ! k) \<and>
                 (\<forall>m<length ys. g (ys ! m) \<le> g (ys ! k)) \<and>
                 (\<forall>m<k. g (ys ! m) < g (ys ! k))"
    then obtain k where k: "k < length ys" "r = ys ! k" "g x < g (ys ! k)"
      "\<forall>m<length ys. g (ys ! m) \<le> g (ys ! k)" "\<forall>m<k. g (ys ! m) < g (ys ! k)" by blast
    have a1: "\<forall>m<length (x # ys). g ((x # ys) ! m) \<le> g (ys ! k)"
    proof (intro allI impI)
      fix m assume "m < length (x # ys)"
      then show "g ((x # ys) ! m) \<le> g (ys ! k)" using k(3,4) by (cases m) auto
    qed
    have a2: "\<forall>m<Suc k. g ((x # ys) ! m) < g (ys ! k)"
    proof (intro allI impI)
      fix m assume "m < Suc k"
      then show "g ((x # ys) ! m) < g (ys ! k)" using k(3,5) by (cases m) auto
    qed
    show ?thesis using k(1,2) eq a1 a2 unfolding xs by (intro exI[of _ "Suc k"] exI[of _ s']) simp
  qed
qed

lemma collect_ok:
  assumes "\<And>i. i \<in> set is \<Longrightarrow> \<exists>y. f i = Inr y \<and> Q y"
  shows "\<exists>ys. collect f is = Inr ys \<and> length ys = length is \<and> (\<forall>y\<in>set ys. Q y)"
  using assms
proof (induction "is")
  case Nil
  then show ?case by simp
next
  case (Cons i "is")
  from Cons.prems[of i] obtain y where y: "f i = Inr y" "Q y" by auto
  from Cons.IH Cons.prems obtain ys where ys: "collect f is = Inr ys" "length ys = length is"
    "\<forall>y\<in>set ys. Q y" by auto
  show ?case using y ys by (simp add: and_then_def)
qed

lemma shift_encode_ok:
  assumes "n \<le> 26"
  shows "\<exists>y. shift_encode text (int n) = Inr y \<and> length y = length text"
proof -
  have "length (slice_from alphabet (int n) @ slice_upto alphabet (int n)) = 26"
    using assms by (simp add: slice_from_def slice_upto_def alphabet_def)
  then show ?thesis
    by (simp add: shift_encode_def encode_def maketrans_def and_then_def translate_def upper_def
        alphabet_def)
qed

lemma all_shifts_ok:
  "\<exists>shifts. all_shifts text = Inr shifts \<and> length shifts = 26 \<and>
     (\<forall>y\<in>set shifts. length y = length text)"
proof -
  have la: "length alphabet = 26" by (simp add: alphabet_def)
  have "\<exists>ys. collect (\<lambda>n. shift_encode text (int n)) [0 ..< length alphabet] = Inr ys \<and>
          length ys = length [0 ..< length alphabet] \<and> (\<forall>y\<in>set ys. length y = length text)"
  proof (rule collect_ok)
    fix i assume "i \<in> set [0 ..< length alphabet]"
    then have "i \<le> 26" unfolding la set_upt by simp
    then show "\<exists>y. shift_encode text (int i) = Inr y \<and> length y = length text"
      by (rule shift_encode_ok)
  qed
  then obtain ys where ys: "collect (\<lambda>n. shift_encode text (int n)) [0 ..< length alphabet] = Inr ys"
    "length ys = length [0 ..< length alphabet]" "\<forall>y\<in>set ys. length y = length text" by blast
  have "length ys = 26" using ys(2) la by (simp only: length_upt)
  then show ?thesis using ys(1,3) unfolding all_shifts_def by blast
qed

lemma init_untrained: "ShiftDecoder_init '''' = CountingProbDist_init [] 1"
  by (simp add: ShiftDecoder_init_def canonicalize_def words_def lower_def bigrams_def)

lemma untrained_decode_raises:
  assumes "2 \<le> length ciphertext"
  shows "decode_answer (ShiftDecoder_init '''') ciphertext = Inl ZeroDivisionError"
proof -
  from all_shifts_ok[of ciphertext] obtain shifts where
    sh: "all_shifts ciphertext = Inr shifts" "length shifts = 26"
    "\<forall>y\<in>set shifts. length y = length ciphertext" by blast
  from sh(2) obtain x rest where xs: "shifts = x # rest" by (cases shifts) auto
  have "length x = length ciphertext" using sh(3) xs by simp
  then have "bigrams x \<noteq> []" using assms by (simp add: bigrams_def)
  then obtain b bs where bg: "bigrams x = b # bs" by (cases "bigrams x") auto
  define P where "P = (CountingProbDist_init [] 1 :: string CountingProbDist)"
  have g: "CountingProbDist_getitem P b = (Inl ZeroDivisionError, P)"
    by (simp add: P_def init_empty CountingProbDist_getitem_def recompute_if_needed_def py_truediv_def)
  have "ShiftDecoder_score P x = (Inl ZeroDivisionError, P)"
    by (simp add: ShiftDecoder_score_def bg g)
  then have "argmax shifts ShiftDecoder_score P = Inl ZeroDivisionError"
    by (simp add: argmax_def xs)
  then show ?thesis
    using sh(1) unfolding P_def
    by (simp add: decode_answer_def ShiftDecoder_decode_def and_then_def init_untrained)
qed

lemma init_ab: "ShiftDecoder_init ''ab'' = CountingProbDist_init [''ab''] 1"
  by code_simp

lemma trained_ab: "n_obs (recompute_if_needed (ShiftDecoder_init ''ab'')) = 2"
  unfolding init_ab by code_simp

text \<open>
  For a decoder whose bigram distribution has a non-zero total, and for a ciphertext of
  fewer than two characters with any decoder, \<open>decode\<close> returns one of the 26 shift
  candidates: its score is maximal among the 26 and strictly above the score of every
  candidate before it, so the first candidate achieving the maximum wins. On the empty
  ciphertext the answer is the empty string.
\<close>

theorem ShiftDecoder_decode_first_max:
  assumes "n_obs (recompute_if_needed P2) \<noteq> 0 \<or> length ciphertext < 2"
  shows "\<exists>shifts k. all_shifts ciphertext = Inr shifts \<and> length shifts = 26 \<and> k < 26 \<and>
           decode_answer P2 ciphertext = Inr (shifts ! k) \<and>
           (\<forall>m<26. score_of P2 (shifts ! m) \<le> score_of P2 (shifts ! k)) \<and>
           (\<forall>m<k. score_of P2 (shifts ! m) < score_of P2 (shifts ! k)) \<and>
           (ciphertext = [] \<longrightarrow> decode_answer P2 ciphertext = Inr [])"
proof -
  from all_shifts_ok[of ciphertext] obtain shifts where
    sh: "all_shifts ciphertext = Inr shifts" "length shifts = 26"
    "\<forall>y\<in>set shifts. length y = length ciphertext" by blast
  have fn: "\<exists>s'. ShiftDecoder_score s x = (Inr (score_of P2 x), s')
              \<and> recompute_if_needed s' = recompute_if_needed P2"
    if "recompute_if_needed s = recompute_if_needed P2" "x \<in> set shifts" for s x
  proof (rule score_ok[OF _ that(1)])
    show "n_obs (recompute_if_needed P2) \<noteq> 0 \<or> length x < 2"
      using assms sh(3) that(2) by auto
  qed
  have ne: "shifts \<noteq> []" using sh(2) by auto
  from argmax_first_max[of "\<lambda>s. recompute_if_needed s = recompute_if_needed P2" shifts
      ShiftDecoder_score "score_of P2" P2, OF fn refl ne]
  obtain k s' where k: "k < length shifts" "argmax shifts ShiftDecoder_score P2 = Inr (shifts ! k, s')"
    "\<forall>m<length shifts. score_of P2 (shifts ! m) \<le> score_of P2 (shifts ! k)"
    "\<forall>m<k. score_of P2 (shifts ! m) < score_of P2 (shifts ! k)" by blast
  have d: "decode_answer P2 ciphertext = Inr (shifts ! k)"
    using sh(1) k(2) by (simp add: decode_answer_def ShiftDecoder_decode_def and_then_def)
  have "shifts ! k \<in> set shifts" using k(1) by simp
  then have "length (shifts ! k) = length ciphertext" using sh(3) by blast
  then have e: "ciphertext = [] \<longrightarrow> decode_answer P2 ciphertext = Inr []"
    using d by auto
  show ?thesis using sh(1,2) k(1,3,4) d e by (intro exI[of _ shifts] exI[of _ k]) simp
qed

theorem ShiftDecoder_decode_first_max_witness:
  "(n_obs (recompute_if_needed (ShiftDecoder_init ''ab'')) \<noteq> 0 \<or> length ''cd'' < 2) \<and>
   (\<exists>shifts k. all_shifts ''cd'' = Inr shifts \<and> length shifts = 26 \<and> k < 26 \<and>
           decode_answer (ShiftDecoder_init ''ab'') ''cd'' = Inr (shifts ! k) \<and>
           (\<forall>m<26. score_of (ShiftDecoder_init ''ab'') (shifts ! m)
                     \<le> score_of (ShiftDecoder_init ''ab'') (shifts ! k)) \<and>
           (\<forall>m<k. score_of (ShiftDecoder_init ''ab'') (shifts ! m)
                     < score_of (ShiftDecoder_init ''ab'') (shifts ! k)) \<and>
           (''cd'' = [] \<longrightarrow> decode_answer (ShiftDecoder_init ''ab'') ''cd'' = Inr []))"
proof -
  have h: "n_obs (recompute_if_needed (ShiftDecoder_init ''ab'')) \<noteq> 0 \<or> length ''cd'' < 2"
    using trained_ab by simp
  show ?thesis
    using h ShiftDecoder_decode_first_max [OF h] by blast
qed

text \<open>
  C7 (the code at the failing input). The claim: for every ciphertext \<open>decode\<close> ends
  with a definite answer. A decoder trained on a text without any bigram (here the empty
  text) has a bigram distribution with total 0; scoring a candidate of two characters
  looks a bigram up in it, and \<open>decode\<close> raises \<open>ZeroDivisionError\<close>.
\<close>

theorem C7_untrained_decoder_raises:
  "decode_answer (ShiftDecoder_init '''') ''ab'' = Inl ZeroDivisionError"
  by (rule untrained_decode_raises) simp

section \<open>PermutationDecoder: score and successors\<close>

lemma log_sum_zero_count:
  assumes "x \<in> set xs" "dd_get (dictionary P) (default_count P) x = 0"
  shows "\<exists>e. log_sum P xs = Inl e"
  using assms
proof (induction xs arbitrary: P)
  case Nil
  then show ?case by simp
next
  case (Cons y ys)
  obtain r P' where g: "CountingProbDist_getitem P y = (r, P')" by (cases "CountingProbDist_getitem P y")
  have P': "P' = recompute_if_needed P" using getitem_snd[of P y] g by simp
  have r: "r = py_truediv (real (dd_get (dictionary P) (default_count P) y)) (n_obs (recompute_if_needed P))"
    using g by (auto simp: CountingProbDist_getitem_def Let_def refresh_fields)
  show ?case
  proof (cases "x = y")
    case True
    then have "r = Inl ZeroDivisionError \<or> r = Inr 0"
      using r Cons.prems(2) by (simp add: py_truediv_def)
    then show ?thesis
      by (auto simp: g and_then_def py_log_def)
  next
    case False
    then have "x \<in> set ys" using Cons.prems(1) by simp
    moreover have "dd_get (dictionary P') (default_count P') x = 0"
      using Cons.prems(2) by (simp add: P' refresh_fields)
    ultimately obtain e where "log_sum P' ys = Inl e" using Cons.IH by blast
    then show ?thesis
      by (auto simp: g and_then_def split: sum.splits)
  qed
qed

lemma words_b: "words ''b'' = [''b'']"
  by code_simp

lemma lookup_pairs_ok:
  assumes "n_obs (recompute_if_needed P) \<noteq> 0"
  shows "\<exists>pairs. lookup_pairs P cs = Inr pairs \<and> length pairs = length cs"
  using assms
proof (induction cs arbitrary: P)
  case Nil
  then show ?case by simp
next
  case (Cons c cs)
  obtain p where g: "CountingProbDist_getitem P c = (Inr p, recompute_if_needed P)"
    using getitem_ok[OF Cons.prems, of c] getitem_snd[of P c]
    by (cases "CountingProbDist_getitem P c") simp
  have "n_obs (recompute_if_needed (recompute_if_needed P)) \<noteq> 0"
    using Cons.prems by (simp add: refresh_idem)
  from Cons.IH[OF this] show ?case by (auto simp: g and_then_def)
qed

lemma successors_NameError:
  assumes "n_obs (recompute_if_needed (pd_P1 decoder)) \<noteq> 0"
    "filter (\<lambda>c. map_of state c = None) alphabet \<noteq> []"
  shows "successors decoder state = Inl NameError"
proof -
  from lookup_pairs_ok[OF assms(1)] obtain pairs where
    p: "lookup_pairs (pd_P1 decoder) (map (\<lambda>c. [c]) (filter (\<lambda>c. map_of state c = None) alphabet)) = Inr pairs"
    "length pairs = length (map (\<lambda>c. [c]) (filter (\<lambda>c. map_of state c = None) alphabet))"
    by blast
  then have "pairs \<noteq> []" using assms(2) by auto
  then obtain x rest where "pairs = x # rest" by (cases pairs) auto
  then show ?thesis using p(1) by (simp add: successors_def and_then_def py_max_def)
qed

text \<open>
  Whatever the decoder, the ciphertext, the assignment and the function \<open>decode\<close>:
  \<open>score\<close> does not return 0. When it returns, it returns an exponential.
\<close>

lemma PermutationDecoder_score_never_zero:
  "PermutationDecoder_score dec self ciphertext code \<noteq> Inr 0"
  by (auto simp: PermutationDecoder_score_def Let_def and_then_def split: sum.splits)

text \<open>
  When a word, a letter or a letter pair of the decoded text has count zero in its model,
  \<open>score\<close> raises: the lookup divides by a zero total, or it yields 0.0 and
  \<open>math.log\<close> raises \<open>ValueError\<close>.
\<close>

lemma PermutationDecoder_score_zero_probability_raises:
  assumes "(\<exists>w \<in> set (words (dec ciphertext code)).
              dd_get (dictionary (pd_Pwords self)) (default_count (pd_Pwords self)) w = 0) \<or>
           (\<exists>c \<in> set (dec ciphertext code).
              dd_get (dictionary (pd_P1 self)) (default_count (pd_P1 self)) [c] = 0) \<or>
           (\<exists>b \<in> set (bigrams (dec ciphertext code)).
              dd_get (dictionary (pd_P2 self)) (default_count (pd_P2 self)) (Str b) = 0)"
  shows "\<exists>e. PermutationDecoder_score dec self ciphertext code = Inl e"
proof -
  have w: "\<exists>e. log_sum (pd_Pwords self) (words (dec ciphertext code)) = Inl e"
    if "w \<in> set (words (dec ciphertext code))"
      "dd_get (dictionary (pd_Pwords self)) (default_count (pd_Pwords self)) w = 0" for w
    using that by (rule log_sum_zero_count)
  have c: "\<exists>e. log_sum (pd_P1 self) (map (\<lambda>c. [c]) (dec ciphertext code)) = Inl e"
    if "c \<in> set (dec ciphertext code)"
      "dd_get (dictionary (pd_P1 self)) (default_count (pd_P1 self)) [c] = 0" for c
  proof (rule log_sum_zero_count[of "[c]"])
    show "[c] \<in> set (map (\<lambda>c. [c]) (dec ciphertext code))" using that(1) by simp
    show "dd_get (dictionary (pd_P1 self)) (default_count (pd_P1 self)) [c] = 0" by (rule that(2))
  qed
  have b: "\<exists>e. log_sum (pd_P2 self) (map Str (bigrams (dec ciphertext code))) = Inl e"
    if "b \<in> set (bigrams (dec ciphertext code))"
      "dd_get (dictionary (pd_P2 self)) (default_count (pd_P2 self)) (Str b) = 0" for b
  proof (rule log_sum_zero_count[of "Str b"])
    show "Str b \<in> set (map Str (bigrams (dec ciphertext code)))" using that(1) by simp
    show "dd_get (dictionary (pd_P2 self)) (default_count (pd_P2 self)) (Str b) = 0" by (rule that(2))
  qed
  from assms w c b have
    "(\<exists>e. log_sum (pd_Pwords self) (words (dec ciphertext code)) = Inl e) \<or>
     (\<exists>e. log_sum (pd_P1 self) (map (\<lambda>c. [c]) (dec ciphertext code)) = Inl e) \<or>
     (\<exists>e. log_sum (pd_P2 self) (map Str (bigrams (dec ciphertext code))) = Inl e)"
    by blast
  then show ?thesis
    by (auto simp: PermutationDecoder_score_def Let_def and_then_def split: sum.splits)
qed

text \<open>
  C2 (the code at the failing input). The claim: when a word of the decoded candidate has
  probability zero, \<open>score\<close> returns exactly 0.0 and the logarithm of zero raises no
  fault. With a word model that has seen only \<open>"a"\<close> and the ciphertext \<open>"b"\<close> under
  the empty assignment, the decoded text is the word \<open>"b"\<close> of probability 0.0, and
  \<open>score\<close> raises \<open>ValueError\<close>.
\<close>

theorem C2_zero_probability_word_raises:
  "PermutationDecoder_score decode
     \<lparr>pd_Pwords = CountingProbDist_init [''a''] 0, pd_P1 = CountingProbDist_init [''a'', ''b''] 0,
      pd_P2 = NgramTextModel_fresh 2\<rparr> ''b'' [] = Inl ValueError"
proof -
  have "fst (CountingProbDist_getitem (CountingProbDist_init [''a''] 0) ''b'') = Inr 0"
    by (simp add: init_getitem)
  then have "log_sum (CountingProbDist_init [''a''] 0) [''b''] = Inl ValueError"
    by (auto simp: and_then_def py_log_def split: prod.splits)
  then show ?thesis
    by (simp add: PermutationDecoder_score_def decode_def words_b and_then_def)
qed

text \<open>
  Whatever the decoder and the state, \<open>successors\<close> raises; it returns neither a list
  of successor states nor \<open>None\<close>.
\<close>

lemma successors_never_returns:
  "\<exists>e. successors decoder state = Inl e"
  by (auto simp: successors_def and_then_def split: sum.splits)

text \<open>
  C5 (the code at the failing input). The claim: from a state with fewer than 26 letters
  assigned, \<open>successors\<close> yields exactly one successor, so that the search reaches the
  goal in 26 steps. On the empty assignment, which is not a goal state, with a letter
  model that has seen \<open>"a"\<close> and \<open>"b"\<close>, \<open>successors\<close> raises \<open>NameError\<close> and
  yields no successor.
\<close>

theorem C5_successors_raises:
  "successors \<lparr>pd_Pwords = CountingProbDist_init [''a''] 0, pd_P1 = CountingProbDist_init [''a'', ''b''] 0,
      pd_P2 = NgramTextModel_fresh 2\<rparr> [] = Inl NameError \<and> \<not> goal_test []"
proof -
  have "n_obs (recompute_if_needed (CountingProbDist_init [''a'', ''b''] 0)) \<noteq> 0"
    by (simp add: init_total)
  then show ?thesis
    by (simp add: successors_NameError alphabet_def goal_test_def)
qed

section \<open>Text generation\<close>

lemma sample_empty:
  "n_obs (recompute_if_needed d) = 0 \<Longrightarrow>
   CountingProbDist_sample gen pos d = Inr (None, recompute_if_needed d, pos)"
  by (simp add: CountingProbDist_sample_def Let_def)

lemma dd_get_same: "dd_get (dd_set es k v) dflt k = v"
  by (simp add: dd_get_dd_set)

lemma stuck_aux:
  assumes "samples_loop gen n nwords cp pos ctx outp = Some y"
  shows "\<not> (length outp < nwords \<and> ctx = replicate (n - 1) [] \<and>
      n_obs (recompute_if_needed (dd_get cp (CountingProbDist_init [] 0) ctx)) = 0)"
proof (rule samples_loop.raw_induct[where P = "\<lambda>gen n nwords cp pos ctx outp y.
      \<not> (length outp < nwords \<and> ctx = replicate (n - 1) [] \<and>
         n_obs (recompute_if_needed (dd_get cp (CountingProbDist_init [] 0) ctx)) = 0)", OF _ assms],
    goal_cases)
  case (1 f gen n nwords cp pos ctx out y)
  show ?case
  proof
    assume inv: "length out < nwords \<and> ctx = replicate (n - 1) [] \<and>
      n_obs (recompute_if_needed (dd_get cp (CountingProbDist_init [] 0) ctx)) = 0"
    let ?d = "dd_get cp (CountingProbDist_init [] 0) ctx"
    from inv have i1: "length out < nwords" and i2: "ctx = replicate (n - 1) []"
      and i3: "n_obs (recompute_if_needed ?d) = 0" by blast+
    have s: "CountingProbDist_sample gen pos ?d = Inr (None, recompute_if_needed ?d, pos)"
      by (rule sample_empty[OF i3])
    have "f gen n nwords (dd_set cp ctx (recompute_if_needed ?d)) pos (replicate (n - 1) []) out = Some y"
      using 1(2) i1 by (simp add: s)
    from 1(1)[OF this] have "\<not> (length out < nwords \<and>
        n_obs (recompute_if_needed (dd_get (dd_set cp ctx (recompute_if_needed ?d))
                 (CountingProbDist_init [] 0) (replicate (n - 1) []))) = 0)" by simp
    moreover have "dd_get (dd_set cp ctx (recompute_if_needed ?d)) (CountingProbDist_init [] 0)
         (replicate (n - 1) []) = recompute_if_needed ?d"
      unfolding i2[symmetric] by (rule dd_get_same)
    ultimately show False
      using i1 i3 by (simp add: refresh_idem)
  qed
qed

lemma samples_stuck:
  assumes "length output < nwords"
    "n_obs (recompute_if_needed (dd_get cp (CountingProbDist_init [] 0) (replicate (n - 1) []))) = 0"
  shows "samples_loop gen n nwords cp pos (replicate (n - 1) []) output = None"
proof (cases "samples_loop gen n nwords cp pos (replicate (n - 1) []) output")
  case None
  then show ?thesis .
next
  case (Some y)
  from stuck_aux[OF this] assms show ?thesis by simp
qed

lemma refresh_consistent:
  assumes "consistent d"
  shows "n_obs (recompute_if_needed d) = real (total_count d)"
    "table (recompute_if_needed d) = snd (recompute_loop (dictionary d) 0 [])"
    "consistent (recompute_if_needed d)"
  using assms recompute_loop_fst[of "dictionary d" 0 "[]"]
  by (auto simp: consistent_def recompute_if_needed_def CountingProbDist_recompute_def total_count_def
      split: prod.splits)

lemma sample_none:
  assumes "consistent d" "total_count d = 0"
  shows "CountingProbDist_sample gen pos d = Inr (None, recompute_if_needed d, pos)"
  using refresh_consistent(1)[OF assms(1)] assms(2) by (simp add: sample_empty)

lemma total_refresh: "total_count (recompute_if_needed d) = total_count d"
  by (simp add: total_count_def refresh_fields)

lemma recompute_loop_prefix: "\<exists>rest. snd (recompute_loop es n t) = t @ rest"
  by (induction es n t rule: recompute_loop.induct) auto

lemma pick_table:
  assumes "\<forall>e\<in>set t. fst e \<le> n" "r < sum_list (map snd es)"
  shows "length (takeWhile (\<lambda>e. fst e < n + 1 + r) (snd (recompute_loop es n t)))
           < length (snd (recompute_loop es n t)) \<and>
         pick es r = Some (snd (snd (recompute_loop es n t) !
             length (takeWhile (\<lambda>e. fst e < n + 1 + r) (snd (recompute_loop es n t)))))"
  using assms
proof (induction es arbitrary: n t r)
  case Nil
  then show ?case by simp
next
  case (Cons e es)
  obtain ob c where e: "e = (ob, c)" by (cases e)
  show ?case
  proof (cases "r < c")
    case True
    from recompute_loop_prefix[of es "n + c" "t @ [(n + c, ob)]"] obtain rest where
      tb: "snd (recompute_loop es (n + c) (t @ [(n + c, ob)])) = (t @ [(n + c, ob)]) @ rest" by blast
    let ?T = "snd (recompute_loop (e # es) n t)"
    have T: "?T = t @ (n + c, ob) # rest" by (simp add: e tb)
    have tw: "takeWhile (\<lambda>e. fst e < n + 1 + r) ?T = t"
      unfolding T using Cons.prems(1) True by (subst takeWhile_append2) auto
    have l: "length t < length ?T" by (simp add: T)
    have nth: "?T ! length t = (n + c, ob)" by (simp add: T)
    have pk: "pick (e # es) r = Some ob" using True by (simp add: e)
    show ?thesis unfolding tw using l nth pk by simp
  next
    case False
    have p: "\<forall>x\<in>set (t @ [(n + c, ob)]). fst x \<le> n + c"
      using Cons.prems(1) by auto
    have q: "r - c < sum_list (map snd es)"
      using Cons.prems(2) False by (simp add: e)
    have k: "n + c + 1 + (r - c) = n + 1 + r" using False by simp
    from Cons.IH[OF p q] show ?thesis
      using False by (simp add: e k)
  qed
qed

lemma sample_pick:
  assumes "consistent d" "0 < total_count d"
  shows "CountingProbDist_sample gen pos d
           = Inr (pick (dictionary d) (gen pos mod total_count d), recompute_if_needed d, pos + 1)"
    and "pick (dictionary d) (gen pos mod total_count d) \<noteq> None"
proof -
  let ?d = "recompute_if_needed d"
  let ?N = "total_count d"
  let ?r = "gen pos mod ?N"
  have n: "n_obs ?d = real ?N" by (rule refresh_consistent(1)[OF assms(1)])
  have t: "table ?d = snd (recompute_loop (dictionary d) 0 [])"
    by (rule refresh_consistent(2)[OF assms(1)])
  have r: "randrange gen pos (real ?N) = Inr (?r, pos + 1)"
    using assms(2) by (simp add: randrange_def)
  have rl: "?r < sum_list (map snd (dictionary d))"
    using assms(2) by (simp add: total_count_def)
  from pick_table[of "[]" 0 ?r "dictionary d"] rl
  have b: "bisect_left (table ?d) (1 + ?r) < length (table ?d)"
    and p: "pick (dictionary d) ?r = Some (snd (table ?d ! bisect_left (table ?d) (1 + ?r)))"
    by (simp_all add: bisect_left_def t)
  show "CountingProbDist_sample gen pos d = Inr (pick (dictionary d) ?r, ?d, pos + 1)"
    using assms(2) b by (simp add: CountingProbDist_sample_def Let_def n r and_then_def p)
  show "pick (dictionary d) ?r \<noteq> None" using p by simp
qed

lemma cond_step:
  assumes ok: "\<forall>c. consistent (dd_get cp F c)"
  shows "\<forall>c. consistent (dd_get (dd_set cp ctx (recompute_if_needed (dd_get cp F ctx))) F c)"
    and "dictionary (dd_get (dd_set cp ctx (recompute_if_needed (dd_get cp F ctx))) F c)
           = dictionary (dd_get cp F c)"
    and "total_count (dd_get (dd_set cp ctx (recompute_if_needed (dd_get cp F ctx))) F c)
           = total_count (dd_get cp F c)"
  using ok refresh_consistent(3)[of "dd_get cp F ctx"]
  by (auto simp: dd_get_dd_set refresh_fields total_refresh)

lemma drawn_cong:
  assumes "\<And>c. dictionary (dd_get cp' (CountingProbDist_init [] 0) c)
              = dictionary (dd_get cp (CountingProbDist_init [] 0) c)"
  shows "drawn gen cp' n pos ctx toks = drawn gen cp n pos ctx toks"
proof (induction toks arbitrary: pos ctx)
  case Nil
  then show ?case by simp
next
  case (Cons t ts)
  have tc: "total_count (dd_get cp' (CountingProbDist_init [] 0) c)
      = total_count (dd_get cp (CountingProbDist_init [] 0) c)" for c
    by (simp add: total_count_def assms)
  show ?case
    by (simp add: Let_def assms tc Cons.IH)
qed

lemma pick_mem: "pick es r = Some w \<Longrightarrow> w \<in> fst ` set es"
  by (induction es r rule: pick.induct) (auto split: if_splits)

lemma drawn_start:
  assumes "[] \<notin> fst ` set (dictionary (dd_get cp (CountingProbDist_init [] 0) (replicate (n - 1) [])))"
    and "0 < total_count (dd_get cp (CountingProbDist_init [] 0) (replicate (n - 1) []))"
  shows "drawn gen cp n pos (replicate (n - 1) []) (t # ts) \<longleftrightarrow>
           t \<noteq> [] \<and>
           pick (dictionary (dd_get cp (CountingProbDist_init [] 0) (replicate (n - 1) [])))
             (gen pos mod total_count (dd_get cp (CountingProbDist_init [] 0) (replicate (n - 1) []))) = Some t \<and>
           drawn gen cp n (pos + 1) (drop 1 (replicate (n - 1) []) @ [t]) ts"
proof -
  let ?s = "dd_get cp (CountingProbDist_init [] 0) (replicate (n - 1) [])"
  have ne: "pick (dictionary ?s) r \<noteq> Some []" for r
    using pick_mem[of "dictionary ?s" r "[]"] assms(1) by blast
  have "t \<noteq> []" if "pick (dictionary ?s) r = Some t" for r
    using that ne[of r] by auto
  then show ?thesis
    using assms(2) ne by (auto simp: Let_def)
qed

lemma drawn_restart:
  assumes "[] \<notin> fst ` set (dictionary (dd_get cp (CountingProbDist_init [] 0) (replicate (n - 1) [])))"
    and "0 < total_count (dd_get cp (CountingProbDist_init [] 0) (replicate (n - 1) []))"
    and "\<not> (0 < total_count (dd_get cp (CountingProbDist_init [] 0) ctx) \<and>
            pick (dictionary (dd_get cp (CountingProbDist_init [] 0) ctx))
              (gen pos mod total_count (dd_get cp (CountingProbDist_init [] 0) ctx)) \<noteq> Some [])"
  shows "drawn gen cp n pos ctx (t # ts) \<longleftrightarrow>
           drawn gen cp n (if 0 < total_count (dd_get cp (CountingProbDist_init [] 0) ctx) then pos + 1 else pos)
             (replicate (n - 1) []) (t # ts)"
  unfolding drawn_start[OF assms(1,2)]
  using assms(3) by (auto simp: Let_def)

lemma samples_loop_generates:
  assumes cons: "\<forall>c. consistent (dd_get cp (CountingProbDist_init [] 0) c)"
    and noempty: "[] \<notin> fst ` set (dictionary (dd_get cp (CountingProbDist_init [] 0) (replicate (n - 1) [])))"
    and start: "0 < total_count (dd_get cp (CountingProbDist_init [] 0) (replicate (n - 1) []))"
    and len: "length outp \<le> nwords"
  shows "\<exists>toks. samples_loop gen n nwords cp pos ctx outp = Some (Inr (join '' '' (outp @ toks))) \<and>
           length (outp @ toks) = nwords \<and> drawn gen cp n pos ctx toks"
  using cons noempty start len
proof (induction "2 * (nwords - length outp) - (if ctx = replicate (n - 1) [] then 1 else (0::nat))"
    arbitrary: cp pos ctx outp rule: less_induct)
  case less
  let ?F = "CountingProbDist_init [] 0 :: string CountingProbDist"
  let ?st = "replicate (n - 1) [] :: string list"
  let ?d = "dd_get cp ?F ctx"
  let ?cp' = "dd_set cp ctx (recompute_if_needed ?d)"
  note cons = less.prems(1) and noempty = less.prems(2) and start = less.prems(3) and len = less.prems(4)
  have cons': "\<forall>c. consistent (dd_get ?cp' ?F c)"
    by (rule cond_step(1)[OF cons])
  have dict': "dictionary (dd_get ?cp' ?F c) = dictionary (dd_get cp ?F c)" for c
    by (rule cond_step(2)[OF cons])
  have tot': "total_count (dd_get ?cp' ?F c) = total_count (dd_get cp ?F c)" for c
    by (rule cond_step(3)[OF cons])
  have noempty': "[] \<notin> fst ` set (dictionary (dd_get ?cp' ?F ?st))"
    using noempty by (simp add: dict')
  have start': "0 < total_count (dd_get ?cp' ?F ?st)"
    using start by (simp add: tot')
  have cong: "drawn gen ?cp' n p c toks = drawn gen cp n p c toks" for p c toks
    by (rule drawn_cong) (rule dict')
  show ?case
  proof (cases "length outp < nwords")
    case False
    then have "length outp = nwords" using len by simp
    then have "samples_loop gen n nwords cp pos ctx outp = Some (Inr (join '' '' (outp @ []))) \<and>
        length (outp @ []) = nwords \<and> drawn gen cp n pos ctx []"
      by (subst samples_loop.simps) auto
    then show ?thesis by blast
  next
    case True
    have consd: "consistent ?d" using cons by blast
    have restart: ?thesis
      if eq: "samples_loop gen n nwords cp pos ctx outp
                = samples_loop gen n nwords ?cp' pos' ?st outp"
        and p': "pos' = (if 0 < total_count ?d then pos + 1 else pos)"
        and nopick: "\<not> (0 < total_count ?d \<and>
                pick (dictionary ?d) (gen pos mod total_count ?d) \<noteq> Some [])"
      for pos'
    proof -
      have "ctx \<noteq> ?st"
      proof
        assume c: "ctx = ?st"
        have "pick (dictionary (dd_get cp ?F ?st)) (gen pos mod total_count (dd_get cp ?F ?st)) \<noteq> Some []"
          using pick_mem[of "dictionary (dd_get cp ?F ?st)" _ "[]"] noempty by blast
        then show False using nopick start unfolding c by blast
      qed
      then have m: "2 * (nwords - length outp) - (if ?st = ?st then 1 else (0::nat))
          < 2 * (nwords - length outp) - (if ctx = ?st then 1 else (0::nat))"
        using True by simp
      from less.hyps[OF m cons' noempty' start' len, of pos'] obtain toks where
        r: "samples_loop gen n nwords ?cp' pos' ?st outp = Some (Inr (join '' '' (outp @ toks)))"
        and l: "length (outp @ toks) = nwords" and dr: "drawn gen ?cp' n pos' ?st toks" by blast
      from l True obtain t ts where toks: "toks = t # ts" by (cases toks) auto
      have dr2: "drawn gen cp n pos' ?st (t # ts)"
        using dr unfolding cong toks .
      have "drawn gen cp n pos ctx (t # ts)"
        unfolding drawn_restart[where gen = gen and pos = pos and ctx = ctx, OF noempty start nopick]
          p'[symmetric]
        by (rule dr2)
      then show ?thesis using r l eq toks by auto
    qed
    show ?thesis
    proof (cases "0 < total_count ?d")
      case False
      then have z: "total_count ?d = 0" by simp
      have s: "CountingProbDist_sample gen pos ?d = Inr (None, recompute_if_needed ?d, pos)"
        by (rule sample_none[OF consd z])
      have eq: "samples_loop gen n nwords cp pos ctx outp
          = samples_loop gen n nwords ?cp' pos ?st outp"
        by (subst samples_loop.simps) (simp add: True s)
      show ?thesis
        by (rule restart[OF eq]) (simp_all add: z)
    next
      case pos: True
      from sample_pick[OF consd pos, of gen pos] obtain w where
        s: "CountingProbDist_sample gen pos ?d = Inr (Some w, recompute_if_needed ?d, pos + 1)"
        and pk: "pick (dictionary ?d) (gen pos mod total_count ?d) = Some w" by auto
      show ?thesis
      proof (cases "w = []")
        case True
        have eq: "samples_loop gen n nwords cp pos ctx outp
            = samples_loop gen n nwords ?cp' (pos + 1) ?st outp"
          by (subst samples_loop.simps) (simp add: \<open>length outp < nwords\<close> s True)
        show ?thesis
          by (rule restart[OF eq]) (simp_all add: pos pk True)
      next
        case wne: False
        have eq: "samples_loop gen n nwords cp pos ctx outp
            = samples_loop gen n nwords ?cp' (pos + 1) (drop 1 ctx @ [w]) (outp @ [w])"
          by (subst samples_loop.simps) (simp add: True s wne)
        define x where "x = (if drop 1 ctx @ [w] = ?st then 1 else (0::nat))"
        define y where "y = (if ctx = ?st then 1 else (0::nat))"
        have "y \<le> 1" by (simp add: y_def)
        moreover have "nwords - length (outp @ [w]) = nwords - length outp - 1" by simp
        moreover have "1 \<le> nwords - length outp" using True by simp
        ultimately have "2 * (nwords - length (outp @ [w])) - x < 2 * (nwords - length outp) - y"
          by arith
        then have m: "2 * (nwords - length (outp @ [w])) - (if drop 1 ctx @ [w] = ?st then 1 else (0::nat))
            < 2 * (nwords - length outp) - (if ctx = ?st then 1 else (0::nat))"
          unfolding x_def y_def .
        have len': "length (outp @ [w]) \<le> nwords" using True by simp
        from less.hyps[OF m cons' noempty' start' len', of "pos + 1"] obtain toks where
          r: "samples_loop gen n nwords ?cp' (pos + 1) (drop 1 ctx @ [w]) (outp @ [w])
                = Some (Inr (join '' '' ((outp @ [w]) @ toks)))"
          and l: "length ((outp @ [w]) @ toks) = nwords"
          and dr: "drawn gen ?cp' n (pos + 1) (drop 1 ctx @ [w]) toks" by blast
        have "drawn gen cp n pos ctx (w # toks)"
          using dr pos pk wne by (simp add: Let_def cong)
        then show ?thesis using r l eq by (intro exI[of _ "w # toks"]) simp
      qed
    qed
  qed
qed

lemma drawn_nonempty: "drawn gen cp n pos ctx toks \<Longrightarrow> [] \<notin> set toks"
proof (induction toks arbitrary: pos ctx)
  case Nil
  then show ?case by simp
next
  case (Cons t ts)
  then show ?case
    by (auto simp: Let_def split: if_splits)
qed

lemma drawn_unique:
  "drawn gen cp n pos ctx toks \<Longrightarrow> drawn gen cp n pos ctx toks' \<Longrightarrow>
   length toks = length toks' \<Longrightarrow> toks = toks'"
proof (induction toks arbitrary: pos ctx toks')
  case Nil
  then show ?case by simp
next
  case (Cons t ts)
  then obtain t' ts' where t': "toks' = t' # ts'" by (cases toks') auto
  from Cons.prems(1,2) have tt: "t = t'"
    unfolding t' by (auto simp: Let_def split: if_splits)
  from Cons.prems(1,2) have "\<exists>p c. drawn gen cp n p c ts \<and> drawn gen cp n p c ts'"
    unfolding t' tt by (auto simp: Let_def split: if_splits)
  then obtain p c where "drawn gen cp n p c ts" "drawn gen cp n p c ts'" by blast
  from Cons.IH[OF this] Cons.prems(3) show ?case by (simp add: t' tt)
qed

lemma abc_model:
  "NgramTextModel_init 2 [''a'', ''b'', ''c''] = Inr m \<Longrightarrow>
   model_n m = 2 \<and>
   cond_prob m = [(([''''], CountingProbDist_add (CountingProbDist_init [] 0) ''a'')),
                  (([''a''], CountingProbDist_add (CountingProbDist_init [] 0) ''b''))]"
  by (auto simp: NgramTextModel_init_def NgramTextModel_add_sequence_def Let_def upt_rec
      NgramTextModel_add_def and_then_def dd_get_def CountingProbDist.extend_def
      CountingProbDist_add_def init_empty)

lemma abc_ok: "\<exists>m. NgramTextModel_init 2 [''a'', ''b'', ''c''] = Inr m"
  by (simp add: NgramTextModel_init_def NgramTextModel_add_sequence_def Let_def upt_rec
      NgramTextModel_add_def and_then_def CountingProbDist.extend_def init_empty)

text \<open>
  C6 (as stated). The claim: for every model and every requested length, \<open>samples\<close>
  terminates with exactly that many tokens. On a freshly constructed bigram model, asked
  for one word, the conditional distribution of the all-sentinel context is empty:
  \<open>sample\<close> yields \<open>None\<close>, the context is reset to the same all-sentinel context,
  and the loop runs forever.
\<close>

theorem C6_fresh_model_counterexample:
  "NgramTextModel_samples zero_draws 0 (NgramTextModel_fresh 2) 1 = None"
proof -
  have "samples_loop zero_draws 2 1 [] 0 (replicate (2 - 1) []) [] = None"
    by (rule samples_stuck) (simp_all add: dd_get_def init_empty recompute_if_needed_def)
  then show ?thesis
    by (simp add: NgramTextModel_samples_def NgramTextModel_fresh_def CountingProbDist.extend_def)
qed

text \<open>
  C6 (amended). For every model whose conditional distributions are each stale or
  rebuilt from their counts (as construction and \<open>add\<close> leave them) and whose
  all-sentinel conditional distribution has a positive total and does not hold the empty
  string as a token, and for every requested length \<open>nwords\<close>, every random source and
  every position in it, \<open>samples\<close> terminates and returns exactly \<open>nwords\<close> tokens
  joined by spaces. The tokens are non-empty, and they are the ones that the draws
  determine: each is picked by the next draw from the conditional distribution of the
  rolling context, or, where that distribution is empty or the pick is the empty string,
  from the all-sentinel distribution after the context is reset. No other sequence of
  \<open>nwords\<close> tokens is generated in this way.
\<close>

theorem C6_samples_returns_total_words:
  assumes "\<forall>ctx. consistent (dd_get (cond_prob self) (CountingProbDist_init [] 0) ctx)"
    and "[] \<notin> fst ` set (dictionary (dd_get (cond_prob self) (CountingProbDist_init [] 0)
                                      (replicate (model_n self - 1) [])))"
    and "0 < total_count (dd_get (cond_prob self) (CountingProbDist_init [] 0)
                            (replicate (model_n self - 1) []))"
  shows "\<exists>toks. NgramTextModel_samples gen pos self nwords = Some (Inr (join '' '' toks)) \<and>
           length toks = nwords \<and> [] \<notin> set toks \<and>
           drawn gen (cond_prob self) (model_n self) pos (replicate (model_n self - 1) []) toks \<and>
           (\<forall>toks'. length toks' = nwords \<and>
              drawn gen (cond_prob self) (model_n self) pos (replicate (model_n self - 1) []) toks'
              \<longrightarrow> toks' = toks)"
proof -
  from samples_loop_generates[OF assms, of "[]" nwords gen pos "replicate (model_n self - 1) []"]
  obtain toks where
    "samples_loop gen (model_n self) nwords (cond_prob self) pos (replicate (model_n self - 1) []) []
       = Some (Inr (join '' '' toks))"
    "length toks = nwords"
    "drawn gen (cond_prob self) (model_n self) pos (replicate (model_n self - 1) []) toks"
    by auto
  then show ?thesis
    using drawn_nonempty drawn_unique unfolding NgramTextModel_samples_def by metis
qed

theorem C6_samples_returns_total_words_witness:
  "\<exists>m. NgramTextModel_init 2 [''a'', ''b'', ''c''] = Inr m \<and>
     (\<forall>ctx. consistent (dd_get (cond_prob m) (CountingProbDist_init [] 0) ctx)) \<and>
     [] \<notin> fst ` set (dictionary (dd_get (cond_prob m) (CountingProbDist_init [] 0)
                                  (replicate (model_n m - 1) []))) \<and>
     0 < total_count (dd_get (cond_prob m) (CountingProbDist_init [] 0) (replicate (model_n m - 1) [])) \<and>
     total_count (dd_get (cond_prob m) (CountingProbDist_init [] 0) [''b'']) = 0 \<and>
     NgramTextModel_samples zero_draws 0 m 3 = Some (Inr ''a b a'')"
proof -
  from abc_ok obtain m where m: "NgramTextModel_init 2 [''a'', ''b'', ''c''] = Inr m" by blast
  note f = abc_model[OF m]
  have h1: "\<forall>ctx. consistent (dd_get (cond_prob m) (CountingProbDist_init [] 0) ctx)"
    by (simp add: f dd_get_def consistent_def init_empty CountingProbDist_add_def)
  have h2: "[] \<notin> fst ` set (dictionary (dd_get (cond_prob m) (CountingProbDist_init [] 0)
                                  (replicate (model_n m - 1) [])))"
    by (simp add: f dd_get_def init_empty CountingProbDist_add_def)
  have h3: "0 < total_count (dd_get (cond_prob m) (CountingProbDist_init [] 0) (replicate (model_n m - 1) []))"
    by (simp add: f dd_get_def total_count_def init_empty CountingProbDist_add_def)
  have dead: "total_count (dd_get (cond_prob m) (CountingProbDist_init [] 0) [''b'']) = 0"
    by (simp add: f dd_get_def total_count_def init_empty)
  from C6_samples_returns_total_words [OF h1 h2 h3, of zero_draws 0 3] obtain toks where
    r: "NgramTextModel_samples zero_draws 0 m 3 = Some (Inr (join '' '' toks))"
    and l: "length toks = 3"
    and d: "drawn zero_draws (cond_prob m) (model_n m) 0 (replicate (model_n m - 1) []) toks"
    by blast
  from l obtain t1 t2 t3 where toks: "toks = [t1, t2, t3]"
    by (auto simp: length_Suc_conv numeral_3_eq_3)
  from d have "t1 = ''a'' \<and> t2 = ''b'' \<and> t3 = ''a''"
    unfolding toks
    by (simp add: f Let_def dd_get_def total_count_def init_empty CountingProbDist_add_def
        zero_draws_def split: if_splits)
  then have "NgramTextModel_samples zero_draws 0 m 3 = Some (Inr ''a b a'')"
    using r by (simp add: toks)
  with m h1 h2 h3 dead show ?thesis by blast
qed

end
